theory Spec2Isabelle
  imports Main "HOL-Library.Sublist" "HOL-Library.Word"
begin

section \<open>Python values used by the ingestion pipeline\<close>

text \<open>
  A Python \<open>str\<close> is a sequence of Unicode code points, so \<open>len\<close> and slicing count
  code points.  The model keeps that: a string is a list of code points, a file on disk is
  a list of bytes, and the decoder stands between the two.  \<open>lit\<close> turns an ASCII literal
  of the source into its code points.
\<close>

type_synonym str = "nat list"
type_synonym byte = "8 word"

definition lit :: "string \<Rightarrow> str" where
  "lit s = map of_char s"

definition slash :: nat where "slash = 47"
definition backslash :: nat where "backslash = 92"
definition LF :: nat where "LF = 10"
definition CR :: nat where "CR = 13"

text \<open>\<open>s.startswith(p)\<close>, \<open>s.endswith(p)\<close> and \<open>p in s\<close> on strings.\<close>

definition startswith :: "str \<Rightarrow> str \<Rightarrow> bool" where
  "startswith s p = prefix p s"

definition endswith :: "str \<Rightarrow> str \<Rightarrow> bool" where
  "endswith s p = suffix p s"

definition contains :: "str \<Rightarrow> str \<Rightarrow> bool" where
  "contains s p = sublist p s"

text \<open>\<open>sep.join(xs)\<close>.\<close>

fun join_with :: "str \<Rightarrow> str list \<Rightarrow> str" where
  "join_with sep [] = []"
| "join_with sep [x] = x"
| "join_with sep (x # y # ys) = x @ sep @ join_with sep (y # ys)"

text \<open>\<open>s.replace("\\", "/")\<close>: every backslash becomes a slash.\<close>

definition replace_backslash :: "str \<Rightarrow> str" where
  "replace_backslash s = map (\<lambda>c. if c = backslash then slash else c) s"



text \<open>
  \<open>str.lower\<close> is Python's Unicode lowercasing, which the repository does not define; the
  functions that call it take it as the parameter \<open>lower\<close>.  On ASCII text it is the
  function below.
\<close>

definition ascii_lower :: "str \<Rightarrow> str" where
  "ascii_lower s = map (\<lambda>c. if 65 \<le> c \<and> c \<le> 90 then c + 32 else c) s"

section \<open>The file system\<close>

text \<open>
  A directory lists its entries in the order \<open>os.scandir\<close> reports them.  A regular file
  carries its bytes and whether the process may open it for reading.  The world also has
  the current directory, the clock in milliseconds (read by \<open>time.time\<close>, advanced by
  \<open>time.sleep\<close>) and the temporary root \<open>tempfile.gettempdir()\<close>.
\<close>

datatype node = File (readable: bool) (bytes: "byte list") | Dir (entries: "(str \<times> node) list")

record world =
  root :: node
  cwd :: "str list"
  clock :: nat
  temp_dir :: str

fun is_dir :: "node \<Rightarrow> bool" where
  "is_dir (Dir es) = True"
| "is_dir (File r bs) = False"

text \<open>\<open>path.split("/")\<close>: the components between slashes, empty ones included.\<close>

fun split_path :: "str \<Rightarrow> str list" where
  "split_path [] = [[]]"
| "split_path (c # cs) =
     (if c = slash then [] # split_path cs
      else (case split_path cs of [] \<Rightarrow> [[c]] | x # xs \<Rightarrow> (c # x) # xs))"

text \<open>
  Path resolution as the kernel does it, one component at a time, with the stack of
  directories above the current one: an empty component and \<open>.\<close> stay, \<open>..\<close> goes up
  (the root is its own parent), a name is looked up in the current directory, and any
  component after a regular file fails (ENOTDIR).
\<close>

fun walk_components :: "node list \<Rightarrow> node \<Rightarrow> str list \<Rightarrow> node option" where
  "walk_components anc n [] = Some n"
| "walk_components anc (File r bs) (c # cs) = None"
| "walk_components anc (Dir es) (c # cs) =
     (if c = [] \<or> c = lit ''.'' then walk_components anc (Dir es) cs
      else if c = lit ''..'' then
        (case anc of [] \<Rightarrow> walk_components [] (Dir es) cs
         | p # ps \<Rightarrow> walk_components ps p cs)
      else (case map_of es c of None \<Rightarrow> None
            | Some n \<Rightarrow> walk_components (Dir es # anc) n cs))"

definition resolve :: "world \<Rightarrow> str \<Rightarrow> node option" where
  "resolve w p =
     (if p = [] then None
      else walk_components [] (root w)
             ((if hd p = slash then [] else cwd w) @ split_path p))"

definition path_exists :: "world \<Rightarrow> str \<Rightarrow> bool" where
  "path_exists w p = (resolve w p \<noteq> None)"

definition isfile :: "world \<Rightarrow> str \<Rightarrow> bool" where
  "isfile w p = (case resolve w p of Some (File r bs) \<Rightarrow> True | _ \<Rightarrow> False)"

definition isdir :: "world \<Rightarrow> str \<Rightarrow> bool" where
  "isdir w p = (case resolve w p of Some (Dir es) \<Rightarrow> True | _ \<Rightarrow> False)"

text \<open>\<open>os.path.join(a, b)\<close> of \<open>posixpath\<close>.\<close>

definition path_join :: "str \<Rightarrow> str \<Rightarrow> str" where
  "path_join a b =
     (if startswith b [slash] then b
      else if a = [] \<or> endswith a [slash] then a @ b
      else a @ [slash] @ b)"

section \<open>The host\<close>

text \<open>
  Exceptions are values that carry their text \<open>str(e)\<close>.  \<open>PermissionError\<close> is the one
  the code names, \<open>UnicodeEncodeError\<close> is what \<open>print\<close> raises, and \<open>OtherError\<close> stands
  for every other subclass of \<open>Exception\<close>.
\<close>

datatype exn =
  PermissionError (exn_text: str)
  | UnicodeEncodeError (exn_text: str)
  | OtherError (exn_text: str)

datatype clone_result = Cloned | GitCommandError str | CloneFailure str

text \<open>
  \<open>shutil.rmtree(dir_path, onerror=onerror)\<close> and \<open>git.Repo.clone_from\<close> act on the host
  and can fail for reasons the program does not control (locked files, permissions, the
  network).  Each takes the world and returns what happened together with the world it
  left behind, and every theorem holds for every such behaviour.  \<open>rmtree\<close> returns
  \<open>None\<close> when the call, handler included, came back without an exception, and the
  exception otherwise.  \<open>strerror\<close> is the text of the \<open>OSError\<close> that \<open>open\<close> raises for a
  path.

  The log stream is the host's too.  A line the code prints is fixed ASCII text around
  the values it interpolates, numbers render in ASCII, and every stream encodes ASCII;
  \<open>loggable\<close> says which other characters the stream encodes.  So \<open>print\<close> succeeds
  exactly when the strings the line interpolates are made of such characters, and raises
  \<open>UnicodeEncodeError\<close>, with the text \<open>encode_error\<close> gives, otherwise.
  \<open>log_print E parts\<close> is the \<open>print\<close> of a line that interpolates the strings \<open>parts\<close>.
\<close>

record platform =
  rmtree :: "world \<Rightarrow> str \<Rightarrow> exn option \<times> world"
  clone_from :: "world \<Rightarrow> str \<Rightarrow> str \<Rightarrow> str \<Rightarrow> clone_result \<times> world"
  strerror :: "str \<Rightarrow> str"
  loggable :: "nat \<Rightarrow> bool"
  encode_error :: "str list \<Rightarrow> str"

definition printable :: "platform \<Rightarrow> str list \<Rightarrow> bool" where
  "printable E parts = list_all (list_all (\<lambda>c. c < 128 \<or> loggable E c)) parts"

definition log_print :: "platform \<Rightarrow> str list \<Rightarrow> exn option" where
  "log_print E parts =
     (if printable E parts then None else Some (UnicodeEncodeError (encode_error E parts)))"

definition sleep :: "nat \<Rightarrow> world \<Rightarrow> world" where
  "sleep ms w = w\<lparr>clock := clock w + ms\<rparr>"

section \<open>ContentFetcher: \<open>get_file_content\<close>\<close>

text \<open>
  The file is opened with \<open>encoding="utf-8", errors='ignore'\<close> in text mode.  The decoder
  below is CPython's UTF-8 decoder under the \<open>ignore\<close> handler: a well-formed sequence
  yields its code point, an ill-formed one is dropped up to the first byte that cannot
  continue it, and a sequence cut off by the end of the data is dropped whole.
\<close>

definition is_cont :: "byte \<Rightarrow> bool" where
  "is_cont b = (0x80 \<le> b \<and> b < 0xC0)"

definition cp2 :: "byte \<Rightarrow> byte \<Rightarrow> nat" where
  "cp2 a b = (unat a mod 32) * 64 + unat b mod 64"

definition cp3 :: "byte \<Rightarrow> byte \<Rightarrow> byte \<Rightarrow> nat" where
  "cp3 a b c = (unat a mod 16) * 4096 + (unat b mod 64) * 64 + unat c mod 64"

definition cp4 :: "byte \<Rightarrow> byte \<Rightarrow> byte \<Rightarrow> byte \<Rightarrow> nat" where
  "cp4 a b c d =
     (unat a mod 8) * 262144 + (unat b mod 64) * 4096 + (unat c mod 64) * 64 + unat d mod 64"

text \<open>The second byte a three- or four-byte lead accepts.\<close>

definition second_ok :: "byte \<Rightarrow> byte \<Rightarrow> bool" where
  "second_ok a b =
     (is_cont b \<and>
      (if a < 0xF0 then \<not> (if b < 0xA0 then a = 0xE0 else a = 0xED)
       else \<not> (if b < 0x90 then a = 0xF0 else a = 0xF4)))"

fun utf8_decode_ignore :: "byte list \<Rightarrow> str" where
  "utf8_decode_ignore [] = []"
| "utf8_decode_ignore (a # bs) =
     (if a < 0x80 then unat a # utf8_decode_ignore bs
      else if a < 0xC2 then utf8_decode_ignore bs
      else if a < 0xE0 then
        (case bs of [] \<Rightarrow> []
         | b # cs \<Rightarrow> if is_cont b then cp2 a b # utf8_decode_ignore cs
                     else utf8_decode_ignore (b # cs))
      else if a < 0xF0 then
        (case bs of [] \<Rightarrow> []
         | b # cs \<Rightarrow>
             if \<not> second_ok a b then utf8_decode_ignore (b # cs)
             else (case cs of [] \<Rightarrow> []
                   | c # ds \<Rightarrow> if is_cont c then cp3 a b c # utf8_decode_ignore ds
                               else utf8_decode_ignore (c # ds)))
      else if a < 0xF5 then
        (case bs of [] \<Rightarrow> []
         | b # cs \<Rightarrow>
             if \<not> second_ok a b then utf8_decode_ignore (b # cs)
             else (case cs of [] \<Rightarrow> []
                   | c # ds \<Rightarrow>
                       if \<not> is_cont c then utf8_decode_ignore (c # ds)
                       else (case ds of [] \<Rightarrow> []
                             | d # es \<Rightarrow> if is_cont d then cp4 a b c d # utf8_decode_ignore es
                                         else utf8_decode_ignore (d # es))))
      else utf8_decode_ignore bs)"

text \<open>Text mode with the default \<open>newline=None\<close>: \<open>\r\n\<close> and \<open>\r\<close> are read as \<open>\n\<close>.\<close>

fun universal_newlines :: "str \<Rightarrow> str" where
  "universal_newlines [] = []"
| "universal_newlines [c] = (if c = CR then [LF] else [c])"
| "universal_newlines (c # d # cs) =
     (if c = CR then
        (if d = LF then LF # universal_newlines cs else LF # universal_newlines (d # cs))
      else c # universal_newlines (d # cs))"

text \<open>\<open>open(full_path, "r", encoding="utf-8", errors='ignore')\<close> followed by \<open>f.read()\<close>.\<close>

definition open_read :: "platform \<Rightarrow> world \<Rightarrow> str \<Rightarrow> exn + str" where
  "open_read E w p =
     (case resolve w p of
        None \<Rightarrow> Inl (OtherError (strerror E p))
      | Some (Dir es) \<Rightarrow> Inl (OtherError (strerror E p))
      | Some (File r bs) \<Rightarrow>
          if r then Inr (universal_newlines (utf8_decode_ignore bs))
          else Inl (PermissionError (strerror E p)))"

text \<open>
  Lines 192 to 205.  The \<open>print\<close> of line 197 is outside the \<open>try\<close> and the one of line 204
  is inside the handler, so an exception of either leaves the function: the result is
  \<open>Inl\<close> of it.  The first line interpolates the path, the second the path and \<open>str(e)\<close>.
\<close>

definition get_file_content :: "platform \<Rightarrow> world \<Rightarrow> str \<Rightarrow> str \<Rightarrow> exn + str option" where
  "get_file_content E w repo_dir file_path =
     (let full_path = path_join repo_dir file_path in
      if \<not> path_exists w full_path \<or> \<not> isfile w full_path then
        (case log_print E [full_path] of Some e \<Rightarrow> Inl e | None \<Rightarrow> Inr None)
      else
        (case open_read E w full_path of
           Inr text \<Rightarrow> Inr (Some text)
         | Inl e \<Rightarrow>
             (case log_print E [full_path, exn_text e] of
                Some e' \<Rightarrow> Inl e'
              | None \<Rightarrow> Inr None)))"

text \<open>Strict well-formedness of a byte sequence as UTF-8: what \<open>errors='strict'\<close> accepts.\<close>

fun utf8_valid :: "byte list \<Rightarrow> bool" where
  "utf8_valid [] = True"
| "utf8_valid (a # bs) =
     (if a < 0x80 then utf8_valid bs
      else if a < 0xC2 then False
      else if a < 0xE0 then
        (case bs of b # cs \<Rightarrow> is_cont b \<and> utf8_valid cs | [] \<Rightarrow> False)
      else if a < 0xF0 then
        (case bs of b # c # ds \<Rightarrow> second_ok a b \<and> is_cont c \<and> utf8_valid ds | _ \<Rightarrow> False)
      else if a < 0xF5 then
        (case bs of b # c # d # es \<Rightarrow>
           second_ok a b \<and> is_cont c \<and> is_cont d \<and> utf8_valid es | _ \<Rightarrow> False)
      else False)"

section \<open>WorkspaceReclaimer: \<open>force_delete_directory\<close>\<close>

text \<open>
  The body of the \<open>try\<close> (lines 109 to 118): \<open>Inr True\<close> is its \<open>return True\<close>,
  \<open>Inr False\<close> is falling through to the next attempt, \<open>Inl\<close> is an exception, of
  \<open>rmtree\<close> or of one of the two prints, which interpolate the path.
\<close>

definition attempt_body :: "platform \<Rightarrow> str \<Rightarrow> world \<Rightarrow> (exn + bool) \<times> world" where
  "attempt_body E p w =
     (if path_exists w p then
        (case rmtree E w p of
           (Some e, w1) \<Rightarrow> (Inl e, w1)
         | (None, w1) \<Rightarrow>
             if \<not> path_exists w1 p then
               (case log_print E [p] of Some e \<Rightarrow> (Inl e, w1) | None \<Rightarrow> (Inr True, w1))
             else
               (case log_print E [p] of Some e \<Rightarrow> (Inl e, w1) | None \<Rightarrow> (Inr False, w1)))
      else (Inr False, w))"

text \<open>
  The \<open>for attempt in range(max_retries)\<close> loop with the attempts left.  \<open>Inr (Some True)\<close>
  is the \<open>return True\<close> inside the loop, \<open>Inr None\<close> is the loop running out.  Each of
  the two handlers prints a line that interpolates the path and \<open>str(e)\<close> and then
  sleeps; an exception of that print is raised inside a handler and leaves the function.
  The delay is in milliseconds.
\<close>

fun retry_loop ::
    "platform \<Rightarrow> str \<Rightarrow> nat \<Rightarrow> nat \<Rightarrow> world \<Rightarrow> (exn + bool option) \<times> world" where
  "retry_loop E p delay 0 w = (Inr None, w)"
| "retry_loop E p delay (Suc n) w =
     (case attempt_body E p w of
        (Inr True, w1) \<Rightarrow> (Inr (Some True), w1)
      | (Inr False, w1) \<Rightarrow> retry_loop E p delay n w1
      | (Inl (PermissionError t), w1) \<Rightarrow>
          (case log_print E [p, t] of
             Some e' \<Rightarrow> (Inl e', w1)
           | None \<Rightarrow> retry_loop E p delay n (sleep delay w1))
      | (Inl e, w1) \<Rightarrow>
          (case log_print E [p, exn_text e] of
             Some e' \<Rightarrow> (Inl e', w1)
           | None \<Rightarrow> retry_loop E p delay n (sleep delay w1)))"

text \<open>After the loop (lines 128 to 131); the \<open>print\<close> of line 129 interpolates the path.\<close>

definition force_delete_directory ::
    "platform \<Rightarrow> str \<Rightarrow> int \<Rightarrow> nat \<Rightarrow> world \<Rightarrow> (exn + bool) \<times> world" where
  "force_delete_directory E p max_retries delay w =
     (case retry_loop E p delay (nat max_retries) w of
        (Inl e, w1) \<Rightarrow> (Inl e, w1)
      | (Inr (Some b), w1) \<Rightarrow> (Inr b, w1)
      | (Inr None, w1) \<Rightarrow>
          if path_exists w1 p then
            (case log_print E [p] of Some e \<Rightarrow> (Inl e, w1) | None \<Rightarrow> (Inr False, w1))
          else (Inr True, w1))"


section \<open>RepositorySource: \<open>clone_repository\<close>\<close>






text \<open>The URL handed to the clone (lines 154 to 164); \<open>if access_token:\<close> is false for
  \<open>None\<close> and for the empty string.\<close>

definition authenticated_url :: "str \<Rightarrow> str option \<Rightarrow> str" where
  "authenticated_url repo_url access_token =
     (case access_token of
        None \<Rightarrow> repo_url
      | Some tok \<Rightarrow>
          if tok = [] then repo_url
          else if contains repo_url (lit ''github.com'') then
            (if startswith repo_url (lit ''https://'') then
               lit ''https://'' @ tok @ lit ''@'' @ drop 8 repo_url
             else if startswith repo_url (lit ''http://'') then
               lit ''http://'' @ tok @ lit ''@'' @ drop 7 repo_url
             else repo_url)
          else repo_url)"










section \<open>TreeIndexer: \<open>get_repo_structure\<close>\<close>

text \<open>
  The index is a Python dict in insertion order: an association list in which assigning
  to a present key replaces its value in place and a new key goes to the end.
\<close>

record descriptor =
  entry_type :: str
  entry_path :: str

type_synonym tree_index = "(str \<times> descriptor) list"

fun dict_set :: "tree_index \<Rightarrow> str \<Rightarrow> descriptor \<Rightarrow> tree_index" where
  "dict_set [] k v = [(k, v)]"
| "dict_set ((k', v') # kvs) k v =
     (if k' = k then (k, v) # kvs else (k', v') # dict_set kvs k v)"

definition keys :: "tree_index \<Rightarrow> str list" where
  "keys s = map fst s"

text \<open>\<open>if ".git" in dirs: dirs.remove(".git")\<close>: \<open>list.remove\<close> drops the first occurrence.\<close>

fun remove_dir :: "str \<Rightarrow> (str \<times> node) list \<Rightarrow> (str \<times> node) list" where
  "remove_dir k [] = []"
| "remove_dir k (e # es) = (if fst e = k then es else e # remove_dir k es)"

text \<open>The inner loop over \<open>files\<close>.\<close>

definition add_file :: "str \<Rightarrow> str \<Rightarrow> tree_index \<Rightarrow> tree_index" where
  "add_file rel_path file s =
     (let file_path = replace_backslash (path_join rel_path file)
      in dict_set s file_path \<lparr>entry_type = lit ''file'', entry_path = file_path\<rparr>)"

text \<open>\<open>os.path.relpath(os.path.join(top, d), repo_dir)\<close>, from the relative path of \<open>top\<close>
  (empty for the root, as the source makes it).\<close>

definition child_rel :: "str \<Rightarrow> str \<Rightarrow> str" where
  "child_rel rel_path d = (if rel_path = [] then d else rel_path @ [slash] @ d)"

text \<open>
  \<open>os.walk\<close> top-down with the loop body of the source run at each directory: the files
  of the directory are added, \<open>.git\<close> is taken out of \<open>dirs\<close>, and the walk goes into
  the directories that are left, in order.
\<close>

function walk :: "str \<Rightarrow> node \<Rightarrow> tree_index \<Rightarrow> tree_index" where
  "walk rel_path (File r bs) s = s"
| "walk rel_path (Dir es) s =
     fold (\<lambda>e s'. walk (child_rel rel_path (fst e)) (snd e) s')
       (remove_dir (lit ''.git'') (filter (\<lambda>e. is_dir (snd e)) es))
       (fold (add_file rel_path) (map fst (filter (\<lambda>e. \<not> is_dir (snd e)) es)) s)"
  by pat_completeness auto
termination
proof (relation "measure (\<lambda>(r, t, s). size t)", goal_cases)
  case 1
  show ?case by simp
next
  case (2 rel_path es s x xa)
  have sub: "set (remove_dir k ys) \<subseteq> set ys" for k and ys :: "(str \<times> node) list"
    by (induction ys) auto
  from 2 have "x \<in> set (filter (\<lambda>e. is_dir (snd e)) es)"
    using sub by blast
  then have "x \<in> set es" by simp
  then have "size (snd x) < Suc (size_list (size_prod (\<lambda>_. 0) size) es)"
    by (induction es) (auto simp: less_Suc_eq_le)
  then show ?case by simp
qed

definition get_repo_structure :: "world \<Rightarrow> str \<Rightarrow> tree_index" where
  "get_repo_structure w repo_dir =
     (if \<not> isdir w repo_dir then []
      else (case resolve w repo_dir of Some t \<Rightarrow> walk [] t [] | None \<Rightarrow> []))"

section \<open>ContextBuilder: \<open>process_code_for_llm\<close>\<close>

text \<open>
  \<open>context_str\<close> grows by appending; each append is one segment, and the text is
  the segments rendered in order.
\<close>

datatype segment =
  Header
  | FileSection (label: str) (excerpt: str)
  | Unreadable (label: str)
  | StructureListing "str list"

fun render :: "segment \<Rightarrow> str" where
  "render Header = lit ''Repository Context:'' @ [LF]"
| "render (FileSection file_path content) =
     [LF] @ lit ''--- File: '' @ file_path @ lit '' ---'' @ [LF] @ lit ''```'' @ [LF]
       @ content @ [LF] @ lit ''```'' @ [LF]"
| "render (Unreadable file_path) =
     [LF] @ lit ''--- File: '' @ file_path @ lit '' (Could not be read or found) ---'' @ [LF]"
| "render (StructureListing ks) =
     [LF] @ lit ''--- Repository File Structure (Partial) ---'' @ [LF]
       @ join_with [LF] ks @ [LF] @ lit ''(... and possibly more files)'' @ [LF]"

text \<open>
  \<open>context\<close> is an optional dict; only its \<open>"files"\<close> entry is read, and only when it is a
  list.  The entries of the list are paths, that is strings.
\<close>

datatype ctxval = FileList "str list" | OtherValue

type_synonym query_context = "str \<Rightarrow> ctxval option"

text \<open>
  Every step reads files with \<open>get_file_content\<close>, so an exception of it leaves the
  builder: each step returns \<open>Inl\<close> of the exception, or \<open>Inr\<close> of the segments it
  appended and the new \<open>files_processed\<close>.  \<open>emit\<close> puts a segment in front of what the
  rest of a loop returns.
\<close>

type_synonym stage_result = "exn + segment list \<times> str set"

definition emit :: "segment \<Rightarrow> stage_result \<Rightarrow> stage_result" where
  "emit s r = (case r of Inl e \<Rightarrow> Inl e | Inr (out, processed) \<Rightarrow> Inr (s # out, processed))"

text \<open>Step 1, the loop over \<open>context["files"]\<close>; \<open>if content:\<close> holds for a non-empty string.\<close>

fun explicit_loop :: "platform \<Rightarrow> world \<Rightarrow> str \<Rightarrow> str list \<Rightarrow> str set \<Rightarrow> stage_result" where
  "explicit_loop E w repo_dir [] processed = Inr ([], processed)"
| "explicit_loop E w repo_dir (file_path # rest) processed =
     (if file_path \<notin> processed then
        (case get_file_content E w repo_dir file_path of
           Inl e \<Rightarrow> Inl e
         | Inr (Some content) \<Rightarrow>
             if content \<noteq> [] then
               emit (FileSection file_path (take 5000 content))
                 (explicit_loop E w repo_dir rest (insert file_path processed))
             else emit (Unreadable file_path) (explicit_loop E w repo_dir rest processed)
         | Inr None \<Rightarrow> emit (Unreadable file_path) (explicit_loop E w repo_dir rest processed))
      else explicit_loop E w repo_dir rest processed)"

definition explicit_stage ::
    "platform \<Rightarrow> world \<Rightarrow> str \<Rightarrow> query_context option \<Rightarrow> stage_result" where
  "explicit_stage E w repo_dir context =
     (case context of
        None \<Rightarrow> Inr ([], {})
      | Some ctx \<Rightarrow>
          (case ctx (lit ''files'') of
             Some (FileList files) \<Rightarrow> explicit_loop E w repo_dir files {}
           | _ \<Rightarrow> Inr ([], {})))"

text \<open>Step 2: the first README variant that can be read, \<open>break\<close> at the first hit; the
  test is \<open>content is not None\<close>, which holds for the empty string.\<close>

definition readme_names :: "str list" where
  "readme_names = [lit ''README.md'', lit ''readme.md'', lit ''README'', lit ''README.txt'']"

fun first_readme ::
    "platform \<Rightarrow> world \<Rightarrow> str \<Rightarrow> str set \<Rightarrow> str list \<Rightarrow> exn + (str \<times> str) option" where
  "first_readme E w repo_dir processed [] = Inr None"
| "first_readme E w repo_dir processed (readme_name # rest) =
     (if readme_name \<notin> processed then
        (case get_file_content E w repo_dir readme_name of
           Inl e \<Rightarrow> Inl e
         | Inr (Some content) \<Rightarrow> Inr (Some (readme_name, content))
         | Inr None \<Rightarrow> first_readme E w repo_dir processed rest)
      else first_readme E w repo_dir processed rest)"

definition readme_stage :: "platform \<Rightarrow> world \<Rightarrow> str \<Rightarrow> str set \<Rightarrow> stage_result" where
  "readme_stage E w repo_dir processed =
     (if lit ''README.md'' \<notin> processed \<and> lit ''readme.md'' \<notin> processed then
        (case first_readme E w repo_dir processed readme_names of
           Inl e \<Rightarrow> Inl e
         | Inr (Some (readme_name, content)) \<Rightarrow>
             Inr ([FileSection readme_name (take 3000 content)], insert readme_name processed)
         | Inr None \<Rightarrow> Inr ([], processed))
      else Inr ([], processed))"

text \<open>Step 3: the candidates, priority names first, then the indexed source files.\<close>

definition priority_files :: "str list" where
  "priority_files =
     [lit ''package.json'', lit ''requirements.txt'', lit ''pom.xml'', lit ''build.gradle'',
      lit ''Cargo.toml'', lit ''setup.py'', lit ''main.py'', lit ''index.js'', lit ''app.py'',
      lit ''server.js'']"

definition source_extensions :: "str list" where
  "source_extensions =
     [lit ''.py'', lit ''.js'', lit ''.ts'', lit ''.jsx'', lit ''.tsx'', lit ''.java'', lit ''.c'',
      lit ''.cpp'', lit ''.h'', lit ''.go'', lit ''.rs'', lit ''.php'', lit ''.html'',
      lit ''.css'', lit ''.scss'', lit ''.vue'', lit ''.rb'']"

definition is_source :: "(str \<Rightarrow> str) \<Rightarrow> str \<Rightarrow> bool" where
  "is_source lower file_path = list_ex (\<lambda>ext. endswith (lower file_path) ext) source_extensions"

definition potential_files :: "(str \<Rightarrow> str) \<Rightarrow> tree_index \<Rightarrow> str set \<Rightarrow> str list" where
  "potential_files lower idx processed =
     filter (\<lambda>pf. pf \<in> set (keys idx) \<and> pf \<notin> processed) priority_files
     @ filter (\<lambda>file_path. file_path \<notin> processed \<and> is_source lower file_path) (keys idx)"

definition max_additional_files :: nat where
  "max_additional_files = 10"

definition files_to_add :: "(str \<Rightarrow> str) \<Rightarrow> tree_index \<Rightarrow> str set \<Rightarrow> str list" where
  "files_to_add lower idx processed =
     take max_additional_files
       (filter (\<lambda>f. f \<notin> processed) (potential_files lower idx processed))"

text \<open>The loop over \<open>files_to_add\<close>: no test against \<open>files_processed\<close> inside it.\<close>

fun additional_loop :: "platform \<Rightarrow> world \<Rightarrow> str \<Rightarrow> str list \<Rightarrow> str set \<Rightarrow> stage_result" where
  "additional_loop E w repo_dir [] processed = Inr ([], processed)"
| "additional_loop E w repo_dir (file_path # rest) processed =
     (case get_file_content E w repo_dir file_path of
        Inl e \<Rightarrow> Inl e
      | Inr (Some content) \<Rightarrow>
          if content \<noteq> [] then
            emit (FileSection file_path (take 2500 content))
              (additional_loop E w repo_dir rest (insert file_path processed))
          else additional_loop E w repo_dir rest processed
      | Inr None \<Rightarrow> additional_loop E w repo_dir rest processed)"

definition additional_stage ::
    "platform \<Rightarrow> (str \<Rightarrow> str) \<Rightarrow> world \<Rightarrow> str \<Rightarrow> str set \<Rightarrow> stage_result" where
  "additional_stage E lower w repo_dir processed =
     additional_loop E w repo_dir
       (files_to_add lower (get_repo_structure w repo_dir) processed) processed"

text \<open>Step 4: the flat listing, for an index of fewer than 200 paths.\<close>

definition listing_stage :: "world \<Rightarrow> str \<Rightarrow> segment list" where
  "listing_stage w repo_dir =
     (let idx = get_repo_structure w repo_dir
      in if length idx < 200 then [StructureListing (take 75 (keys idx))] else [])"

text \<open>
  The segments of the bundle in the order they are appended, and the text returned.  The
  \<open>print\<close> of line 374 interpolates a number only.
\<close>

definition context_segments ::
    "platform \<Rightarrow> (str \<Rightarrow> str) \<Rightarrow> world \<Rightarrow> str \<Rightarrow> query_context option
       \<Rightarrow> exn + segment list" where
  "context_segments E lower w repo_dir context =
     (case explicit_stage E w repo_dir context of
        Inl e \<Rightarrow> Inl e
      | Inr (explicit, processed1) \<Rightarrow>
          (case readme_stage E w repo_dir processed1 of
             Inl e \<Rightarrow> Inl e
           | Inr (readme, processed2) \<Rightarrow>
               (case additional_stage E lower w repo_dir processed2 of
                  Inl e \<Rightarrow> Inl e
                | Inr (additional, processed3) \<Rightarrow>
                    Inr (Header # explicit @ readme @ additional
                           @ listing_stage w repo_dir))))"

definition process_code_for_llm ::
    "platform \<Rightarrow> (str \<Rightarrow> str) \<Rightarrow> world \<Rightarrow> str \<Rightarrow> str \<Rightarrow> query_context option
       \<Rightarrow> exn + str" where
  "process_code_for_llm E lower w repo_dir query context =
     (case context_segments E lower w repo_dir context of
        Inl e \<Rightarrow> Inl e
      | Inr segments \<Rightarrow> Inr (concat (map render segments)))"

text \<open>The labelled file segments of a bundle: content and placeholder alike.\<close>

fun labels :: "segment list \<Rightarrow> str list" where
  "labels [] = []"
| "labels (FileSection p c # xs) = p # labels xs"
| "labels (Unreadable p # xs) = p # labels xs"
| "labels (x # xs) = labels xs"

fun excerpt_length :: "segment \<Rightarrow> nat" where
  "excerpt_length (FileSection p c) = length c"
| "excerpt_length x = 0"

fun is_listing :: "segment \<Rightarrow> bool" where
  "is_listing (StructureListing ks) = True"
| "is_listing x = False"

fun is_file_section :: "segment \<Rightarrow> bool" where
  "is_file_section (FileSection p c) = True"
| "is_file_section x = False"

section \<open>Concrete hosts and worlds\<close>

text \<open>
  Behaviours of the host, used where a property is run on a concrete input: an \<open>rmtree\<close>
  that removes the tree and one that is denied every time; a clone that creates the
  destination directory and then fails with the text git writes when the branch is not on
  the remote; a log stream that encodes every character and one that is strict UTF-8,
  which refuses the surrogate code points.
\<close>

definition components :: "str \<Rightarrow> str list" where
  "components p = filter (\<lambda>c. c \<noteq> []) (split_path p)"

fun delete_at :: "str list \<Rightarrow> node \<Rightarrow> node" where
  "delete_at [] n = n"
| "delete_at (c # cs) (File r bs) = File r bs"
| "delete_at [c] (Dir es) = Dir (filter (\<lambda>e. fst e \<noteq> c) es)"
| "delete_at (c # d # ds) (Dir es) =
     Dir (map (\<lambda>e. if fst e = c then (fst e, delete_at (d # ds) (snd e)) else e) es)"

fun make_dir_at :: "str list \<Rightarrow> node \<Rightarrow> node" where
  "make_dir_at [c] (Dir es) = Dir (es @ [(c, Dir [])])"
| "make_dir_at (c # d # ds) (Dir es) =
     Dir (map (\<lambda>e. if fst e = c then (fst e, make_dir_at (d # ds) (snd e)) else e) es)"
| "make_dir_at cs n = n"

definition rmtree_removes :: "world \<Rightarrow> str \<Rightarrow> exn option \<times> world" where
  "rmtree_removes w p = (None, w\<lparr>root := delete_at (components p) (root w)\<rparr>)"

definition rmtree_denied :: "world \<Rightarrow> str \<Rightarrow> exn option \<times> world" where
  "rmtree_denied w p = (Some (PermissionError (lit ''[WinError 5] Access is denied'')), w)"

definition git_missing_branch_text :: "str \<Rightarrow> str" where
  "git_missing_branch_text branch =
     lit ''warning: Could not find remote branch '' @ branch @ lit '' to clone.'' @ [LF]
     @ lit ''fatal: Remote branch '' @ branch @ lit '' not found in upstream origin''"

definition clone_no_branch :: "world \<Rightarrow> str \<Rightarrow> str \<Rightarrow> str \<Rightarrow> clone_result \<times> world" where
  "clone_no_branch w url repo_dir branch =
     (GitCommandError (git_missing_branch_text branch),
      w\<lparr>root := make_dir_at (components repo_dir) (root w)\<rparr>)"

definition utf8_encodable :: "nat \<Rightarrow> bool" where
  "utf8_encodable c = (c < 0xD800 \<or> (0xDFFF < c \<and> c < 0x110000))"

definition host_ok :: platform where
  "host_ok =
     \<lparr>rmtree = rmtree_removes, clone_from = clone_no_branch,
      strerror = (\<lambda>p. lit ''[Errno 13] Permission denied''),
      loggable = (\<lambda>c. True),
      encode_error = (\<lambda>parts. lit ''surrogates not allowed'')\<rparr>"

definition host_locked :: platform where
  "host_locked = host_ok\<lparr>rmtree := rmtree_denied\<rparr>"

definition host_strict :: platform where
  "host_strict = host_ok\<lparr>loggable := utf8_encodable\<rparr>"

definition tmp_world :: world where
  "tmp_world =
     \<lparr>root = Dir [(lit ''tmp'', Dir [(lit ''ws'', Dir [(lit ''a.py'', File True [0x61])])])],
      cwd = [], clock = 5000, temp_dir = lit ''/tmp''\<rparr>"



text \<open>A workspace at \<open>/ws\<close> with a README, a source file, a file that is not valid UTF-8,
  an empty file, a file the process may not read, and the metadata directory.\<close>

definition ascii :: "string \<Rightarrow> byte list" where
  "ascii s = map of_char s"

definition ws_world :: world where
  "ws_world =
     \<lparr>root = Dir [(lit ''ws'', Dir
        [(lit ''README.md'', File True (ascii ''Demo'')),
         (lit ''src'', Dir [(lit ''app.py'', File True (ascii ''print(1)''))]),
         (lit ''bad.txt'', File True [0x61, 0xFF, 0x62]),
         (lit ''empty.txt'', File True []),
         (lit ''locked.txt'', File False (ascii ''x'')),
         (lit ''util.py'', File True (ascii ''pass'')),
         (lit ''.git'', Dir [(lit ''HEAD'', File True (ascii ''ref''))])])],
      cwd = [], clock = 0, temp_dir = lit ''/tmp''\<rparr>"


text \<open>
  The rule for the clone URL as the specification words it: when a credential is supplied
  and the URL targets the host that takes a token in the URL, the credential goes
  immediately after the scheme (followed by \<open>@\<close>); otherwise the URL is unchanged.  The
  host a URL targets is the host of its authority: what stands after the scheme up to the
  next slash, without the user information before the last \<open>@\<close> (code point 64) and
  without the port after the colon (code point 58).  The host that takes the token is
  \<open>github.com\<close>.
\<close>

fun after_scheme :: "str \<Rightarrow> str option" where
  "after_scheme [] = None"
| "after_scheme (c # cs) =
     (if startswith (c # cs) (lit ''://'') then Some (drop 3 (c # cs)) else after_scheme cs)"

definition url_host :: "str \<Rightarrow> str option" where
  "url_host url =
     (case after_scheme url of
        None \<Rightarrow> None
      | Some rest \<Rightarrow>
          (let authority = takeWhile (\<lambda>c. c \<noteq> slash) rest;
               hostport = rev (takeWhile (\<lambda>c. c \<noteq> 64) (rev authority))
           in Some (takeWhile (\<lambda>c. c \<noteq> 58) hostport)))"

definition targets_token_host :: "str \<Rightarrow> bool" where
  "targets_token_host url = (url_host url = Some (lit ''github.com''))"

fun embed_after_scheme :: "str \<Rightarrow> str \<Rightarrow> str" where
  "embed_after_scheme tok [] = []"
| "embed_after_scheme tok (c # cs) =
     (if startswith (c # cs) (lit ''://'') then lit ''://'' @ tok @ lit ''@'' @ drop 3 (c # cs)
      else c # embed_after_scheme tok cs)"

definition spec_clone_url :: "str \<Rightarrow> str option \<Rightarrow> str" where
  "spec_clone_url url credential =
     (case credential of
        None \<Rightarrow> url
      | Some tok \<Rightarrow> if targets_token_host url then embed_after_scheme tok url else url)"

definition ctx_of :: "str list \<Rightarrow> query_context" where
  "ctx_of files = [lit ''files'' \<mapsto> FileList files]"

text \<open>A workspace holding the single file \<open>main.py\<close>.\<close>

definition dup_world :: world where
  "dup_world =
     \<lparr>root = Dir [(lit ''r'', Dir [(lit ''main.py'', File True (ascii ''x''))])],
      cwd = [], clock = 0, temp_dir = lit ''/tmp''\<rparr>"

text \<open>A workspace of 500 source files \<open>aa.py\<close>, \<open>ab.py\<close>, ... and nothing else.\<close>

definition file_name :: "nat \<Rightarrow> str" where
  "file_name i = [97 + i div 26, 97 + i mod 26] @ lit ''.py''"

definition many_files :: "nat \<Rightarrow> (str \<times> node) list" where
  "many_files n = map (\<lambda>i. (file_name i, File True [0x78])) [0..<n]"

definition big_world :: world where
  "big_world = \<lparr>root = Dir [(lit ''big'', Dir (many_files 500))],
      cwd = [], clock = 0, temp_dir = lit ''/tmp''\<rparr>"

text \<open>
  What the host guarantees of a directory tree: within one directory the names are
  distinct, and a name is non-empty and has no slash.  \<open>lookup\<close> follows a list of names
  down the tree.
\<close>

definition valid_name :: "str \<Rightarrow> bool" where
  "valid_name k = (k \<noteq> [] \<and> slash \<notin> set k)"

fun wf_node :: "node \<Rightarrow> bool" where
  "wf_node (File r bs) = True"
| "wf_node (Dir es) =
     (distinct (map fst es) \<and> (\<forall>e \<in> set es. valid_name (fst e) \<and> wf_node (snd e)))"

fun lookup :: "node \<Rightarrow> str list \<Rightarrow> node option" where
  "lookup n [] = Some n"
| "lookup (File r bs) (c # cs) = None"
| "lookup (Dir es) (c # cs) = (case map_of es c of None \<Rightarrow> None | Some n \<Rightarrow> lookup n cs)"

definition is_file :: "node option \<Rightarrow> bool" where
  "is_file x = (case x of Some (File r bs) \<Rightarrow> True | _ \<Rightarrow> False)"

text \<open>A workspace with a regular file named \<open>.git\<close> at its root (as a linked worktree or
  a submodule has) and a \<open>.git\<close> directory further down.\<close>

definition gitfile_tree :: node where
  "gitfile_tree =
     Dir [(lit ''.git'', File True (ascii ''gitdir: elsewhere'')),
          (lit ''sub'', Dir [(lit ''.git'', Dir [(lit ''HEAD'', File True (ascii ''ref''))]),
                             (lit ''a.py'', File True (ascii ''x''))])]"

definition gitfile_world :: world where
  "gitfile_world =
     \<lparr>root = Dir [(lit ''r'', gitfile_tree)], cwd = [], clock = 0, temp_dir = lit ''/tmp''\<rparr>"

section \<open>Properties of WorkspaceReclaimer\<close>

lemma log_print_all: "\<forall>c. loggable E c \<Longrightarrow> log_print E parts = None"
  by (simp add: log_print_def printable_def list_all_iff)

lemma attempt_body_absent: "\<not> path_exists w p \<Longrightarrow> attempt_body E p w = (Inr False, w)"
  by (simp add: attempt_body_def)

lemma attempt_body_True: "attempt_body E p w = (Inr True, w1) \<Longrightarrow> \<not> path_exists w1 p"
  by (auto simp: attempt_body_def split: if_splits prod.splits option.splits)

lemma retry_loop_absent: "\<not> path_exists w p \<Longrightarrow> retry_loop E p d n w = (Inr None, w)"
  by (induction n) (auto simp: attempt_body_absent)

lemma retry_loop_Some:
  "retry_loop E p d n w = (Inr (Some b), w') \<Longrightarrow> b \<and> \<not> path_exists w' p"
proof (induction n arbitrary: w)
  case 0
  then show ?case by simp
next
  case (Suc n)
  obtain r w1 where a: "attempt_body E p w = (r, w1)" by (cases "attempt_body E p w")
  show ?case
  proof (cases r)
    case (Inr ok)
    show ?thesis
    proof (cases ok)
      case True
      with Inr a Suc.prems attempt_body_True[of E p w w1] show ?thesis by simp
    next
      case False
      with Inr a Suc.prems Suc.IH[of w1] show ?thesis by simp
    qed
  next
    case (Inl e)
    with a Suc.prems Suc.IH[of "sleep d w1"] show ?thesis
      by (cases e) (auto split: option.splits)
  qed
qed

lemma force_delete_directory_iff:
  assumes "force_delete_directory E p m d w = (Inr b, w')"
  shows "b \<longleftrightarrow> \<not> path_exists w' p"
proof -
  obtain r w1 where l: "retry_loop E p d (nat m) w = (r, w1)"
    by (cases "retry_loop E p d (nat m) w")
  show ?thesis
  proof (cases r)
    case (Inl e)
    with l assms show ?thesis by (simp add: force_delete_directory_def)
  next
    case (Inr x)
    show ?thesis
    proof (cases x)
      case None
      with Inr l assms show ?thesis
        by (auto simp: force_delete_directory_def split: if_splits option.splits)
    next
      case (Some b0)
      with Inr l retry_loop_Some[of E p d "nat m" w b0 w1] assms show ?thesis
        by (auto simp: force_delete_directory_def)
    qed
  qed
qed

text \<open>When the log stream encodes every character, no \<open>print\<close> fails and the function
  returns.\<close>

lemma attempt_body_loggable:
  "\<forall>c. loggable E c \<Longrightarrow> attempt_body E p w = (Inl e, w1) \<Longrightarrow> rmtree E w p = (Some e, w1)"
  by (auto simp: attempt_body_def log_print_all split: if_splits prod.splits option.splits)

lemma retry_loop_loggable:
  "\<forall>c. loggable E c \<Longrightarrow> \<exists>r w'. retry_loop E p d n w = (Inr r, w')"
proof (induction n arbitrary: w)
  case 0
  then show ?case by simp
next
  case (Suc n)
  obtain r w1 where a: "attempt_body E p w = (r, w1)" by (cases "attempt_body E p w")
  show ?case
  proof (cases r)
    case (Inr ok)
    with a Suc.IH[OF Suc.prems, of w1] show ?thesis by (cases ok) auto
  next
    case (Inl e)
    with a Suc.IH[OF Suc.prems, of "sleep d w1"] Suc.prems show ?thesis
      by (cases e) (auto simp: log_print_all)
  qed
qed

lemma force_delete_directory_loggable:
  assumes "\<forall>c. loggable E c"
  shows "\<exists>b w'. force_delete_directory E p m d w = (Inr b, w') \<and> (b \<longleftrightarrow> \<not> path_exists w' p)"
proof -
  obtain r w1 where l: "retry_loop E p d (nat m) w = (Inr r, w1)"
    using retry_loop_loggable[OF assms] by blast
  then have "\<exists>b w'. force_delete_directory E p m d w = (Inr b, w')"
    using assms by (cases r) (auto simp: force_delete_directory_def log_print_all)
  then show ?thesis using force_delete_directory_iff by blast
qed

text \<open>
  C7.  Reclaiming a path that does not exist returns \<open>True\<close> and leaves the world as it
  was, whatever the host does and whatever the retry count and delay; so a second call on
  the same path, made in the world the first one left, returns \<open>True\<close> again.
\<close>

theorem reclaim_absent_path_succeeds:
  assumes "\<not> path_exists w p"
  shows "force_delete_directory E p m d w = (Inr True, w)
       \<and> (case force_delete_directory E p m d w of
            (r1, w1) \<Rightarrow> force_delete_directory E p m d w1 = (Inr True, w1))"
  using assms by (simp add: force_delete_directory_def retry_loop_absent)

theorem reclaim_absent_path_succeeds_witness:
  "\<not> path_exists tmp_world (lit ''/tmp/nothing'')
   \<and> force_delete_directory host_locked (lit ''/tmp/nothing'') 3 500 tmp_world
       = (Inr True, tmp_world)
   \<and> (case force_delete_directory host_locked (lit ''/tmp/nothing'') 3 500 tmp_world of
        (r1, w1) \<Rightarrow>
          force_delete_directory host_locked (lit ''/tmp/nothing'') 3 500 w1 = (Inr True, w1))"
proof -
  have h: "\<not> path_exists tmp_world (lit ''/tmp/nothing'')" by code_simp
  from reclaim_absent_path_succeeds[OF h, of host_locked 3 500] h show ?thesis by simp
qed


section \<open>Properties of ContentFetcher\<close>

text \<open>
  C2, as stated, fails on its third case: a readable file whose bytes are not valid UTF-8
  is not reported absent.  The file below holds \<open>a\<close>, the byte \<open>0xFF\<close> and \<open>b\<close>; the
  reader skips the bad byte and returns \<open>ab\<close>.
\<close>

theorem fetch_invalid_bytes_counterexample:
  "resolve ws_world (path_join (lit ''/ws'') (lit ''bad.txt'')) = Some (File True [0x61, 0xFF, 0x62])
   \<and> \<not> utf8_valid [0x61, 0xFF, 0x62]
   \<and> get_file_content host_ok ws_world (lit ''/ws'') (lit ''bad.txt'') = Inr (Some (lit ''ab''))"
  by code_simp


text \<open>The \<open>print\<close> of the line for a missing path is outside the \<open>try\<close>: when the stream
  cannot encode the path, the exception leaves the function.\<close>

lemma get_file_content_unloggable:
  "\<not> path_exists w (path_join d p) \<Longrightarrow> \<not> printable E [path_join d p] \<Longrightarrow>
   get_file_content E w d p = Inl (UnicodeEncodeError (encode_error E [path_join d p]))"
  by (simp add: get_file_content_def Let_def log_print_def)

lemma get_file_content_loggable:
  "\<forall>c. loggable E c \<Longrightarrow> \<exists>r. get_file_content E w d p = Inr r"
  by (auto simp: get_file_content_def Let_def log_print_all split: sum.splits)

text \<open>
  C2, amended.  Whenever the line it logs can be written to the log stream,
  \<open>get_file_content\<close> returns \<open>None\<close> when the resolved path does not exist, when it is a
  directory, and when it is a file the process may not open.  For a readable file it
  logs nothing and returns the bytes decoded as UTF-8 with the undecodable bytes skipped
  (and newlines normalised), whatever the bytes are.
\<close>

theorem fetch_absent_or_decoded:
  "(\<not> path_exists w (path_join repo_dir p) \<and> printable E [path_join repo_dir p]
      \<longrightarrow> get_file_content E w repo_dir p = Inr None)
   \<and> (isdir w (path_join repo_dir p) \<and> printable E [path_join repo_dir p]
      \<longrightarrow> get_file_content E w repo_dir p = Inr None)
   \<and> (resolve w (path_join repo_dir p) = Some (File False bs)
        \<and> printable E [path_join repo_dir p, strerror E (path_join repo_dir p)]
      \<longrightarrow> get_file_content E w repo_dir p = Inr None)
   \<and> (resolve w (path_join repo_dir p) = Some (File True bs)
      \<longrightarrow> get_file_content E w repo_dir p
            = Inr (Some (universal_newlines (utf8_decode_ignore bs))))"
  by (auto simp: get_file_content_def path_exists_def isdir_def isfile_def open_read_def Let_def
           log_print_def split: option.splits node.splits)

theorem fetch_absent_or_decoded_witness:
  "\<not> path_exists ws_world (path_join (lit ''/ws'') (lit ''nothing''))
   \<and> printable host_strict [path_join (lit ''/ws'') (lit ''nothing'')]
   \<and> get_file_content host_strict ws_world (lit ''/ws'') (lit ''nothing'') = Inr None
   \<and> isdir ws_world (path_join (lit ''/ws'') (lit ''src''))
   \<and> printable host_strict [path_join (lit ''/ws'') (lit ''src'')]
   \<and> get_file_content host_strict ws_world (lit ''/ws'') (lit ''src'') = Inr None
   \<and> resolve ws_world (path_join (lit ''/ws'') (lit ''locked.txt'')) = Some (File False (ascii ''x''))
   \<and> printable host_strict [path_join (lit ''/ws'') (lit ''locked.txt''),
        strerror host_strict (path_join (lit ''/ws'') (lit ''locked.txt''))]
   \<and> get_file_content host_strict ws_world (lit ''/ws'') (lit ''locked.txt'') = Inr None
   \<and> resolve ws_world (path_join (lit ''/ws'') (lit ''bad.txt'')) = Some (File True [0x61, 0xFF, 0x62])
   \<and> get_file_content host_strict ws_world (lit ''/ws'') (lit ''bad.txt'')
       = Inr (Some (universal_newlines (utf8_decode_ignore [0x61, 0xFF, 0x62])))"
proof -
  have a: "\<not> path_exists ws_world (path_join (lit ''/ws'') (lit ''nothing''))" by code_simp
  have a': "printable host_strict [path_join (lit ''/ws'') (lit ''nothing'')]" by code_simp
  have b: "isdir ws_world (path_join (lit ''/ws'') (lit ''src''))" by code_simp
  have b': "printable host_strict [path_join (lit ''/ws'') (lit ''src'')]" by code_simp
  have c: "resolve ws_world (path_join (lit ''/ws'') (lit ''locked.txt'')) = Some (File False (ascii ''x''))"
    by code_simp
  have c': "printable host_strict [path_join (lit ''/ws'') (lit ''locked.txt''),
        strerror host_strict (path_join (lit ''/ws'') (lit ''locked.txt''))]" by code_simp
  have d: "resolve ws_world (path_join (lit ''/ws'') (lit ''bad.txt'')) = Some (File True [0x61, 0xFF, 0x62])"
    by code_simp
  from a a' b b' c c' d
    fetch_absent_or_decoded[of ws_world "lit ''/ws''" "lit ''nothing''" host_strict]
    fetch_absent_or_decoded[of ws_world "lit ''/ws''" "lit ''src''" host_strict]
    fetch_absent_or_decoded[of ws_world "lit ''/ws''" "lit ''locked.txt''" host_strict "ascii ''x''"]
    fetch_absent_or_decoded[of ws_world "lit ''/ws''" "lit ''bad.txt''" host_strict "[0x61, 0xFF, 0x62]"]
  show ?thesis by blast
qed

section \<open>Properties of RepositorySource\<close>

text \<open>
  C8.  The token can be embedded into a URL that does not target \<open>github.com\<close>.  The
  source takes \<open>"github.com" in repo_url\<close> for the host test, which holds for a URL that
  has the name anywhere, in its path for one.  The URL below targets \<open>evil.example\<close>;
  the specification's rule leaves it unmodified, the code puts the token into it.
\<close>

theorem clone_url_token_for_other_host:
  "url_host (lit ''https://evil.example/github.com/r'') = Some (lit ''evil.example'')
   \<and> spec_clone_url (lit ''https://evil.example/github.com/r'') (Some (lit ''tok''))
       = lit ''https://evil.example/github.com/r''
   \<and> authenticated_url (lit ''https://evil.example/github.com/r'') (Some (lit ''tok''))
       = lit ''https://tok@evil.example/github.com/r''"
  by code_simp

text \<open>On a URL of \<open>github.com\<close> in either supported form the code does what the rule says,
  and without a token, or for a URL that does not have the name, it leaves the URL as it
  is.\<close>

lemma embed_https: "embed_after_scheme tok (lit ''https://'' @ rest) = lit ''https://'' @ tok @ lit ''@'' @ rest"
  by (simp add: lit_def startswith_def)

lemma embed_http: "embed_after_scheme tok (lit ''http://'' @ rest) = lit ''http://'' @ tok @ lit ''@'' @ rest"
  by (simp add: lit_def startswith_def)

lemma contains_github_https: "contains (lit ''https://github.com/'' @ rest) (lit ''github.com'')"
proof -
  have "lit ''https://github.com/'' @ rest = lit ''https://'' @ lit ''github.com'' @ (lit ''/'' @ rest)"
    by (simp add: lit_def)
  then show ?thesis unfolding contains_def by (metis sublist_appendI)
qed

lemma contains_github_http: "contains (lit ''http://github.com/'' @ rest) (lit ''github.com'')"
proof -
  have "lit ''http://github.com/'' @ rest = lit ''http://'' @ lit ''github.com'' @ (lit ''/'' @ rest)"
    by (simp add: lit_def)
  then show ?thesis unfolding contains_def by (metis sublist_appendI)
qed

lemma url_host_github_https: "url_host (lit ''https://github.com/'' @ rest) = Some (lit ''github.com'')"
  by (simp add: url_host_def lit_def startswith_def slash_def Let_def)

lemma url_host_github_http: "url_host (lit ''http://github.com/'' @ rest) = Some (lit ''github.com'')"
  by (simp add: url_host_def lit_def startswith_def slash_def Let_def)

lemma clone_url_github_https:
  assumes "tok \<noteq> []"
  shows "authenticated_url (lit ''https://github.com/'' @ rest) (Some tok)
           = spec_clone_url (lit ''https://github.com/'' @ rest) (Some tok)"
    and "authenticated_url (lit ''https://github.com/'' @ rest) (Some tok)
           = lit ''https://'' @ tok @ lit ''@github.com/'' @ rest"
proof -
  have s: "lit ''https://github.com/'' @ rest = lit ''https://'' @ (lit ''github.com/'' @ rest)"
    by (simp add: lit_def)
  have a: "authenticated_url (lit ''https://github.com/'' @ rest) (Some tok)
      = lit ''https://'' @ tok @ lit ''@'' @ (lit ''github.com/'' @ rest)"
    using assms contains_github_https[of rest]
    by (simp add: authenticated_url_def startswith_def) (simp add: lit_def)
  have b: "spec_clone_url (lit ''https://github.com/'' @ rest) (Some tok)
      = lit ''https://'' @ tok @ lit ''@'' @ (lit ''github.com/'' @ rest)"
    using url_host_github_https[of rest] embed_https[of tok "lit ''github.com/'' @ rest"]
    by (simp add: spec_clone_url_def targets_token_host_def s)
  from a b show "authenticated_url (lit ''https://github.com/'' @ rest) (Some tok)
           = spec_clone_url (lit ''https://github.com/'' @ rest) (Some tok)" by simp
  from a show "authenticated_url (lit ''https://github.com/'' @ rest) (Some tok)
           = lit ''https://'' @ tok @ lit ''@github.com/'' @ rest" by (simp add: lit_def)
qed

lemma clone_url_github_http:
  assumes "tok \<noteq> []"
  shows "authenticated_url (lit ''http://github.com/'' @ rest) (Some tok)
           = spec_clone_url (lit ''http://github.com/'' @ rest) (Some tok)"
proof -
  have s: "lit ''http://github.com/'' @ rest = lit ''http://'' @ (lit ''github.com/'' @ rest)"
    by (simp add: lit_def)
  have a: "authenticated_url (lit ''http://github.com/'' @ rest) (Some tok)
      = lit ''http://'' @ tok @ lit ''@'' @ (lit ''github.com/'' @ rest)"
    using assms contains_github_http[of rest]
    by (simp add: authenticated_url_def startswith_def) (simp add: lit_def)
  have b: "spec_clone_url (lit ''http://github.com/'' @ rest) (Some tok)
      = lit ''http://'' @ tok @ lit ''@'' @ (lit ''github.com/'' @ rest)"
    using url_host_github_http[of rest] embed_http[of tok "lit ''github.com/'' @ rest"]
    by (simp add: spec_clone_url_def targets_token_host_def s)
  from a b show ?thesis by simp
qed

lemma clone_url_unmodified:
  "credential = None \<or> credential = Some [] \<or> \<not> contains url (lit ''github.com'')
   \<Longrightarrow> authenticated_url url credential = url"
  by (auto simp: authenticated_url_def split: option.splits)





section \<open>Properties of ContextBuilder\<close>

lemma emit_Inr:
  "emit s r = Inr (out, P) \<longleftrightarrow> (\<exists>out'. r = Inr (out', P) \<and> out = s # out')"
  by (auto simp: emit_def split: sum.splits)


lemma explicit_loop_sections:
  "explicit_loop E w d files P = Inr (out, P') \<Longrightarrow> s \<in> set out \<Longrightarrow>
     (\<exists>p. s = Unreadable p \<and> p \<in> set files
           \<and> (get_file_content E w d p = Inr None \<or> get_file_content E w d p = Inr (Some [])))
   \<or> (\<exists>p c. s = FileSection p (take 5000 c) \<and> p \<in> set files
           \<and> get_file_content E w d p = Inr (Some c) \<and> c \<noteq> [])"
proof (induction files arbitrary: P out)
  case Nil
  then show ?case by simp
next
  case (Cons f files)
  show ?case
  proof (cases "f \<in> P")
    case True
    with Cons.prems Cons.IH[of P out] show ?thesis by auto
  next
    case False
    show ?thesis
    proof (cases "get_file_content E w d f")
      case (Inl e)
      with False Cons.prems show ?thesis by simp
    next
      case (Inr r)
      show ?thesis
      proof (cases "\<exists>c. r = Some c \<and> c \<noteq> []")
        case True
        then obtain c where c: "r = Some c" "c \<noteq> []" by blast
        with Inr False Cons.prems obtain out' where
          o: "explicit_loop E w d files (insert f P) = Inr (out', P')"
            "out = FileSection f (take 5000 c) # out'"
          by (auto simp: emit_Inr)
        with Cons.prems(2) have "s = FileSection f (take 5000 c) \<or> s \<in> set out'" by simp
        then show ?thesis using Cons.IH[OF o(1)] Inr c by auto
      next
        case no: False
        with Inr False Cons.prems obtain out' where
          o: "explicit_loop E w d files P = Inr (out', P')" "out = Unreadable f # out'"
          by (cases r) (auto simp: emit_Inr split: if_splits)
        with Cons.prems(2) have "s = Unreadable f \<or> s \<in> set out'" by simp
        moreover have "get_file_content E w d f = Inr None \<or> get_file_content E w d f = Inr (Some [])"
          using Inr no by (cases r) auto
        ultimately show ?thesis using Cons.IH[OF o(1)] by auto
      qed
    qed
  qed
qed


lemma explicit_loop_covers:
  "explicit_loop E w d files P = Inr (out, P') \<Longrightarrow> p \<in> set files \<Longrightarrow>
   p \<in> P \<or> p \<in> set (labels out)"
proof (induction files arbitrary: P out)
  case Nil
  then show ?case by simp
next
  case (Cons f files)
  show ?case
  proof (cases "f \<in> P")
    case True
    with Cons.prems Cons.IH[of P out] show ?thesis by auto
  next
    case fP: False
    from fP Cons.prems(1) obtain s out' Q where
      o: "explicit_loop E w d files Q = Inr (out', P')" "out = s # out'"
         "Q = P \<or> Q = insert f P" "s = Unreadable f \<or> (\<exists>c. s = FileSection f c)"
      by (auto simp: emit_Inr split: sum.splits option.splits if_splits)
    show ?thesis
    proof (cases "f = p")
      case True
      with o(2,4) show ?thesis by auto
    next
      case False
      with Cons.prems have "p \<in> set files" by simp
      from Cons.IH[OF o(1) this] o(2,3,4) False show ?thesis by auto
    qed
  qed
qed

text \<open>Every entry of the explicit list is labelled in step 1.\<close>

lemma explicit_stage_covers:
  "ctx (lit ''files'') = Some (FileList files) \<Longrightarrow> p \<in> set files \<Longrightarrow>
   explicit_stage E w d (Some ctx) = Inr (out, P) \<Longrightarrow> p \<in> set (labels out)"
  using explicit_loop_covers[of E w d files "{}" out P p] by (simp add: explicit_stage_def)

lemma explicit_stage_cap:
  assumes "explicit_stage E w d ctx = Inr (out, P)" and "s \<in> set out"
  shows "excerpt_length s \<le> 5000"
proof (cases "\<exists>c files. ctx = Some c \<and> c (lit ''files'') = Some (FileList files)")
  case True
  then obtain c files where "ctx = Some c" "c (lit ''files'') = Some (FileList files)" by blast
  with assms(1) have "explicit_loop E w d files {} = Inr (out, P)"
    by (simp add: explicit_stage_def)
  from explicit_loop_sections[OF this assms(2)] show ?thesis by auto
next
  case False
  with assms(1) have "out = []"
    by (auto simp: explicit_stage_def split: option.splits ctxval.splits)
  with assms(2) show ?thesis by simp
qed

lemma first_readme_Some:
  "first_readme E w d P names = Inr (Some (n, c)) \<Longrightarrow>
   n \<in> set names \<and> get_file_content E w d n = Inr (Some c)"
  by (induction names) (auto split: if_splits sum.splits option.splits)

lemma readme_stage_sections:
  "readme_stage E w d P = Inr (out, P') \<Longrightarrow>
   out = [] \<or> (\<exists>n c. out = [FileSection n (take 3000 c)] \<and> n \<in> set readme_names
                   \<and> get_file_content E w d n = Inr (Some c))"
  by (auto simp: readme_stage_def split: if_splits sum.splits option.splits
           dest: first_readme_Some)

lemma readme_stage_cap:
  "readme_stage E w d P = Inr (out, P') \<Longrightarrow> s \<in> set out \<Longrightarrow> excerpt_length s \<le> 3000"
  by (auto dest!: readme_stage_sections)

lemma additional_loop_sections:
  "additional_loop E w d fs P = Inr (out, P') \<Longrightarrow> s \<in> set out \<Longrightarrow>
   \<exists>p c. s = FileSection p (take 2500 c) \<and> p \<in> set fs
         \<and> get_file_content E w d p = Inr (Some c) \<and> c \<noteq> []"
proof (induction fs arbitrary: P out)
  case Nil
  then show ?case by simp
next
  case (Cons f fs)
  show ?case
  proof (cases "\<exists>c. get_file_content E w d f = Inr (Some c) \<and> c \<noteq> []")
    case True
    then obtain c where c: "get_file_content E w d f = Inr (Some c)" "c \<noteq> []" by blast
    with Cons.prems obtain out' where
      o: "additional_loop E w d fs (insert f P) = Inr (out', P')"
         "out = FileSection f (take 2500 c) # out'"
      by (auto simp: emit_Inr)
    with Cons.prems(2) have "s = FileSection f (take 2500 c) \<or> s \<in> set out'" by simp
    then show ?thesis using c Cons.IH[OF o(1)] by auto
  next
    case False
    with Cons.prems(1) have "additional_loop E w d fs P = Inr (out, P')"
      by (auto split: sum.splits option.splits if_splits)
    from Cons.IH[OF this Cons.prems(2)] show ?thesis by auto
  qed
qed

lemma additional_loop_length:
  "additional_loop E w d fs P = Inr (out, P') \<Longrightarrow> length out \<le> length fs"
proof (induction fs arbitrary: P out)
  case Nil
  then show ?case by simp
next
  case (Cons f fs)
  from Cons.prems consider
    (a) out' where "additional_loop E w d fs (insert f P) = Inr (out', P')" "length out = Suc (length out')"
    | (b) "additional_loop E w d fs P = Inr (out, P')"
    by (auto simp: emit_Inr split: sum.splits option.splits if_splits)
  then show ?case
  proof cases
    case a
    with Cons.IH[OF a(1)] show ?thesis by simp
  next
    case b
    with Cons.IH[OF b] show ?thesis by simp
  qed
qed

lemma files_to_add_length: "length (files_to_add lower idx P) \<le> 10"
  by (simp add: files_to_add_def max_additional_files_def)

lemma additional_stage_length:
  "additional_stage E lower w d P = Inr (out, P') \<Longrightarrow> length out \<le> 10"
  unfolding additional_stage_def
  using additional_loop_length[of E w d "files_to_add lower (get_repo_structure w d) P" P out P']
    files_to_add_length[of lower "get_repo_structure w d" P]
  by linarith

lemma additional_stage_cap:
  "additional_stage E lower w d P = Inr (out, P') \<Longrightarrow> s \<in> set out \<Longrightarrow> excerpt_length s \<le> 2500"
  unfolding additional_stage_def by (auto dest!: additional_loop_sections)

lemma context_segments_Inr:
  "context_segments E lower w d ctx = Inr bundle \<longleftrightarrow>
     (\<exists>e P1 r P2 a P3.
        explicit_stage E w d ctx = Inr (e, P1) \<and> readme_stage E w d P1 = Inr (r, P2)
        \<and> additional_stage E lower w d P2 = Inr (a, P3)
        \<and> bundle = Header # e @ r @ a @ listing_stage w d)"
  by (auto simp: context_segments_def split: sum.splits)

text \<open>
  C5.  In every bundle the builder returns, the segments are the header, those of step
  1, of step 2, of step 3 and the listing, in this order; every excerpt of step 1 has at
  most 5000 characters, the README excerpt of step 2 at most 3000, and every excerpt of
  step 3 at most 2500.
\<close>

theorem excerpt_caps:
  "(explicit_stage E w d ctx = Inr (e, P1) \<longrightarrow> (\<forall>s \<in> set e. excerpt_length s \<le> 5000))
   \<and> (readme_stage E w d P = Inr (r, P2) \<longrightarrow> (\<forall>s \<in> set r. excerpt_length s \<le> 3000))
   \<and> (additional_stage E lower w d P' = Inr (a, P3) \<longrightarrow> (\<forall>s \<in> set a. excerpt_length s \<le> 2500))
   \<and> (context_segments E lower w d ctx = Inr bundle \<longrightarrow>
        (\<exists>e P1 r P2 a P3.
           explicit_stage E w d ctx = Inr (e, P1) \<and> readme_stage E w d P1 = Inr (r, P2)
           \<and> additional_stage E lower w d P2 = Inr (a, P3)
           \<and> bundle = Header # e @ r @ a @ listing_stage w d
           \<and> (\<forall>s \<in> set e. excerpt_length s \<le> 5000)
           \<and> (\<forall>s \<in> set r. excerpt_length s \<le> 3000)
           \<and> (\<forall>s \<in> set a. excerpt_length s \<le> 2500)))"
proof (intro conjI impI)
  show "\<forall>s \<in> set e. excerpt_length s \<le> 5000" if "explicit_stage E w d ctx = Inr (e, P1)"
    using explicit_stage_cap[OF that] by blast
  show "\<forall>s \<in> set r. excerpt_length s \<le> 3000" if "readme_stage E w d P = Inr (r, P2)"
    using readme_stage_cap[OF that] by blast
  show "\<forall>s \<in> set a. excerpt_length s \<le> 2500" if "additional_stage E lower w d P' = Inr (a, P3)"
    using additional_stage_cap[OF that] by blast
  assume "context_segments E lower w d ctx = Inr bundle"
  then obtain e P1 r P2 a P3 where
    st: "explicit_stage E w d ctx = Inr (e, P1)" "readme_stage E w d P1 = Inr (r, P2)"
        "additional_stage E lower w d P2 = Inr (a, P3)"
        "bundle = Header # e @ r @ a @ listing_stage w d"
    unfolding context_segments_Inr by blast
  with explicit_stage_cap[OF st(1)] readme_stage_cap[OF st(2)] additional_stage_cap[OF st(3)]
  show "\<exists>e P1 r P2 a P3.
           explicit_stage E w d ctx = Inr (e, P1) \<and> readme_stage E w d P1 = Inr (r, P2)
           \<and> additional_stage E lower w d P2 = Inr (a, P3)
           \<and> bundle = Header # e @ r @ a @ listing_stage w d
           \<and> (\<forall>s \<in> set e. excerpt_length s \<le> 5000)
           \<and> (\<forall>s \<in> set r. excerpt_length s \<le> 3000)
           \<and> (\<forall>s \<in> set a. excerpt_length s \<le> 2500)"
    by blast
qed

text \<open>When the log stream encodes every character the builder returns a bundle.\<close>

lemma explicit_loop_loggable:
  "\<forall>c. loggable E c \<Longrightarrow> \<exists>r. explicit_loop E w d files P = Inr r"
proof (induction files arbitrary: P)
  case Nil
  then show ?case by simp
next
  case (Cons f files)
  obtain g where g: "get_file_content E w d f = Inr g"
    using get_file_content_loggable[OF Cons.prems] by blast
  from Cons.IH[OF Cons.prems, of P] Cons.IH[OF Cons.prems, of "insert f P"] g show ?case
    by (cases g) (auto simp: emit_def)
qed

lemma first_readme_loggable:
  "\<forall>c. loggable E c \<Longrightarrow> \<exists>r. first_readme E w d P names = Inr r"
proof (induction names)
  case Nil
  then show ?case by simp
next
  case (Cons n names)
  obtain g where g: "get_file_content E w d n = Inr g"
    using get_file_content_loggable[OF Cons.prems] by blast
  from Cons.IH[OF Cons.prems] g show ?case by (cases g) auto
qed

lemma additional_loop_loggable:
  "\<forall>c. loggable E c \<Longrightarrow> \<exists>r. additional_loop E w d fs P = Inr r"
proof (induction fs arbitrary: P)
  case Nil
  then show ?case by simp
next
  case (Cons f fs)
  obtain g where g: "get_file_content E w d f = Inr g"
    using get_file_content_loggable[OF Cons.prems] by blast
  from Cons.IH[OF Cons.prems, of P] Cons.IH[OF Cons.prems, of "insert f P"] g show ?case
    by (cases g) (auto simp: emit_def)
qed

lemma explicit_stage_loggable:
  assumes "\<forall>c. loggable E c"
  shows "\<exists>r. explicit_stage E w d ctx = Inr r"
proof (cases ctx)
  case None
  then show ?thesis by (simp add: explicit_stage_def)
next
  case (Some c)
  show ?thesis
  proof (cases "c (lit ''files'')")
    case None
    with Some show ?thesis by (simp add: explicit_stage_def)
  next
    case (Some v)
    with \<open>ctx = Some c\<close> explicit_loop_loggable[OF assms, of w d _ "{}"] show ?thesis
      by (cases v) (simp_all add: explicit_stage_def)
  qed
qed

lemma readme_stage_loggable:
  assumes "\<forall>c. loggable E c"
  shows "\<exists>r. readme_stage E w d P = Inr r"
proof -
  obtain x where x: "first_readme E w d P readme_names = Inr x"
    using first_readme_loggable[OF assms] by blast
  then show ?thesis by (cases x) (auto simp: readme_stage_def)
qed

lemma additional_stage_loggable:
  "\<forall>c. loggable E c \<Longrightarrow> \<exists>r. additional_stage E lower w d P = Inr r"
  unfolding additional_stage_def by (rule additional_loop_loggable)

lemma context_segments_loggable:
  assumes "\<forall>c. loggable E c"
  shows "\<exists>bundle. context_segments E lower w d ctx = Inr bundle"
proof -
  obtain e P1 where e: "explicit_stage E w d ctx = Inr (e, P1)"
    using explicit_stage_loggable[OF assms, of w d ctx] by (metis surj_pair)
  obtain r P2 where r: "readme_stage E w d P1 = Inr (r, P2)"
    using readme_stage_loggable[OF assms, of w d P1] by (metis surj_pair)
  obtain a P3 where a: "additional_stage E lower w d P2 = Inr (a, P3)"
    using additional_stage_loggable[OF assms, of lower w d P2] by (metis surj_pair)
  from e r a show ?thesis unfolding context_segments_Inr by blast
qed



subsection \<open>The index of the 500-file workspace\<close>

lemma keys_dict_set_new: "k \<notin> set (keys s) \<Longrightarrow> keys (dict_set s k v) = keys s @ [k]"
  by (induction s) (auto simp: keys_def)

lemma keys_dict_set_old: "k \<in> set (keys s) \<Longrightarrow> keys (dict_set s k v) = keys s"
  by (induction s) (force simp: keys_def)+

lemma keys_add_file_set:
  "set (keys (add_file rel f s)) = insert (replace_backslash (path_join rel f)) (set (keys s))"
  by (cases "replace_backslash (path_join rel f) \<in> set (keys s)")
     (auto simp: add_file_def Let_def keys_dict_set_new keys_dict_set_old)

lemma keys_fold_add_file_plain:
  "distinct names \<Longrightarrow> set names \<inter> set (keys s) = {} \<Longrightarrow>
   \<forall>f \<in> set names. replace_backslash (path_join [] f) = f \<Longrightarrow>
   keys (fold (add_file []) names s) = keys s @ names"
proof (induction names arbitrary: s)
  case Nil
  then show ?case by simp
next
  case (Cons f names)
  have f: "replace_backslash (path_join [] f) = f" using Cons.prems(3) by simp
  have nf: "f \<notin> set (keys s)" using Cons.prems(2) by auto
  have k: "keys (add_file [] f s) = keys s @ [f]"
    using nf f by (simp add: add_file_def Let_def keys_dict_set_new)
  have "keys (fold (add_file []) names (add_file [] f s)) = keys (add_file [] f s) @ names"
    using Cons.prems k by (intro Cons.IH) auto
  with k show ?case by simp
qed

lemma file_name_plain: "replace_backslash (path_join [] (file_name i)) = file_name i"
  by (simp add: file_name_def path_join_def startswith_def replace_backslash_def
      lit_def slash_def backslash_def)

lemma file_name_inj: "file_name i = file_name j \<Longrightarrow> i = j"
proof -
  assume "file_name i = file_name j"
  then have "i div 26 = j div 26" "i mod 26 = j mod 26" by (simp_all add: file_name_def)
  then show "i = j" by (metis div_mult_mod_eq)
qed

lemma many_files_names: "map fst (many_files n) = map file_name [0..<n]"
  by (simp add: many_files_def comp_def)

lemma many_files_no_dirs: "filter (\<lambda>e. is_dir (snd e)) (many_files n) = []"
  by (simp add: many_files_def filter_empty_conv)

lemma many_files_all_files: "filter (\<lambda>e. \<not> is_dir (snd e)) (many_files n) = many_files n"
  by (simp add: many_files_def)

lemma resolve_big: "resolve big_world (lit ''/big'') = Some (Dir (many_files 500))"
  by (simp add: resolve_def big_world_def lit_def slash_def)

lemma keys_big: "keys (get_repo_structure big_world (lit ''/big'')) = map file_name [0..<500]"
proof -
  have d: "distinct (map file_name [0..<500])"
    by (simp add: distinct_map inj_on_def file_name_inj)
  have "keys (fold (add_file []) (map file_name [0..<500]) []) = keys [] @ map file_name [0..<500]"
    by (rule keys_fold_add_file_plain[OF d]) (auto simp: keys_def file_name_plain)
  then show ?thesis
    by (simp add: get_repo_structure_def isdir_def resolve_big many_files_no_dirs
        many_files_all_files many_files_names keys_def)
qed

lemma length_big: "length (get_repo_structure big_world (lit ''/big'')) = 500"
  using arg_cong[OF keys_big, of length] by (simp add: keys_def)

lemma map_of_many_files_None: "length k \<noteq> 5 \<Longrightarrow> map_of (many_files n) k = None"
  by (auto simp: map_of_eq_None_iff many_files_def file_name_def lit_def)

lemma readme_big: "readme_stage host_ok big_world (lit ''/big'') {} = Inr ([], {})"
proof -
  have "get_file_content host_ok big_world (lit ''/big'') (lit ''README.md'') = Inr None"
    by (simp add: get_file_content_def path_join_def startswith_def endswith_def path_exists_def
        resolve_def big_world_def lit_def slash_def map_of_many_files_None log_print_def
        printable_def host_ok_def)
  moreover have "get_file_content host_ok big_world (lit ''/big'') (lit ''readme.md'') = Inr None"
    by (simp add: get_file_content_def path_join_def startswith_def endswith_def path_exists_def
        resolve_def big_world_def lit_def slash_def map_of_many_files_None log_print_def
        printable_def host_ok_def)
  moreover have "get_file_content host_ok big_world (lit ''/big'') (lit ''README'') = Inr None"
    by (simp add: get_file_content_def path_join_def startswith_def endswith_def path_exists_def
        resolve_def big_world_def lit_def slash_def map_of_many_files_None log_print_def
        printable_def host_ok_def)
  moreover have "get_file_content host_ok big_world (lit ''/big'') (lit ''README.txt'') = Inr None"
    by (simp add: get_file_content_def path_join_def startswith_def endswith_def path_exists_def
        resolve_def big_world_def lit_def slash_def map_of_many_files_None log_print_def
        printable_def host_ok_def)
  ultimately show ?thesis by (simp add: readme_stage_def readme_names_def)
qed

lemma keys_big_length:
  "k \<in> set (keys (get_repo_structure big_world (lit ''/big''))) \<Longrightarrow> length k = 5"
  unfolding keys_big by (auto simp: file_name_def lit_def)

lemma priority_big:
  "\<forall>pf \<in> set priority_files. pf \<notin> set (keys (get_repo_structure big_world (lit ''/big'')))"
proof
  fix pf
  assume "pf \<in> set priority_files"
  then have "length pf \<noteq> 5" by (auto simp: priority_files_def lit_def)
  with keys_big_length show "pf \<notin> set (keys (get_repo_structure big_world (lit ''/big'')))"
    by blast
qed

lemma additional_stage_sources:
  assumes "\<forall>pf \<in> set priority_files. pf \<notin> set (keys (get_repo_structure w d))"
    and "additional_stage E lower w d P = Inr (out, P')"
    and "s \<in> set out"
  shows "\<exists>p c. s = FileSection p c \<and> is_source lower p \<and> p \<in> set (keys (get_repo_structure w d))"
proof -
  from assms(2,3) obtain p c where s: "s = FileSection p (take 2500 c)"
    and p: "p \<in> set (files_to_add lower (get_repo_structure w d) P)"
    unfolding additional_stage_def by (auto dest!: additional_loop_sections)
  from p have "p \<in> set (potential_files lower (get_repo_structure w d) P)"
    by (auto simp: files_to_add_def dest: in_set_takeD)
  with assms(1) have "is_source lower p \<and> p \<in> set (keys (get_repo_structure w d))"
    by (auto simp: potential_files_def)
  with s show ?thesis by blast
qed

text \<open>
  C6.  When the index holds 500 files, no explicit file and no README variant was
  included and no priority name is in the index, every bundle the builder returns is the
  header followed by at most 10 segments, each the content segment of an indexed source
  file, and it holds no listing segment.
\<close>

theorem large_index_bundle:
  assumes "length (get_repo_structure w d) = 500"
    and "explicit_stage E w d ctx = Inr ([], P1)"
    and "readme_stage E w d P1 = Inr ([], P2)"
    and "\<forall>pf \<in> set priority_files. pf \<notin> set (keys (get_repo_structure w d))"
    and "context_segments E lower w d ctx = Inr bundle"
  shows "\<exists>extra. bundle = Header # extra
       \<and> length extra \<le> 10
       \<and> (\<forall>s \<in> set extra. \<exists>p c. s = FileSection p c \<and> is_source lower p
              \<and> p \<in> set (keys (get_repo_structure w d)))
       \<and> (\<forall>s \<in> set bundle. \<not> is_listing s)"
proof -
  from assms(5) assms(2,3) obtain a P3 where
    a: "additional_stage E lower w d P2 = Inr (a, P3)"
       "bundle = Header # [] @ [] @ a @ listing_stage w d"
    unfolding context_segments_Inr by auto
  have l: "listing_stage w d = []" using assms(1) by (simp add: listing_stage_def Let_def)
  with a(2) have eq: "bundle = Header # a" by simp
  have src: "\<forall>s \<in> set a. \<exists>p c. s = FileSection p c \<and> is_source lower p
              \<and> p \<in> set (keys (get_repo_structure w d))"
    using additional_stage_sources[OF assms(4) a(1)] by blast
  then have "\<forall>s \<in> set (Header # a). \<not> is_listing s" by auto
  with eq src additional_stage_length[OF a(1)] show ?thesis by auto
qed

theorem large_index_bundle_witness:
  "length (get_repo_structure big_world (lit ''/big'')) = 500
   \<and> explicit_stage host_ok big_world (lit ''/big'') None = Inr ([], {})
   \<and> readme_stage host_ok big_world (lit ''/big'') {} = Inr ([], {})
   \<and> set priority_files \<inter> set (keys (get_repo_structure big_world (lit ''/big''))) = {}
   \<and> (\<exists>bundle extra. context_segments host_ok ascii_lower big_world (lit ''/big'') None = Inr bundle
       \<and> bundle = Header # extra
       \<and> length extra \<le> 10
       \<and> (\<forall>s \<in> set extra. \<exists>p c. s = FileSection p c \<and> is_source ascii_lower p
              \<and> p \<in> set (keys (get_repo_structure big_world (lit ''/big''))))
       \<and> (\<forall>s \<in> set bundle. \<not> is_listing s))"
proof -
  have h2: "explicit_stage host_ok big_world (lit ''/big'') None = Inr ([], {})"
    by (simp add: explicit_stage_def)
  have h4: "set priority_files \<inter> set (keys (get_repo_structure big_world (lit ''/big''))) = {}"
    using priority_big by blast
  have "\<forall>c. loggable host_ok c" by (simp add: host_ok_def)
  then obtain bd where
    b: "context_segments host_ok ascii_lower big_world (lit ''/big'') None = Inr bd"
    using context_segments_loggable by blast
  from large_index_bundle[OF length_big h2 readme_big priority_big b] b length_big h2 readme_big h4
  show ?thesis by blast
qed

text \<open>
  C1.  The bundle can label the same path twice.  A priority name with a source
  extension enters \<open>potential_files\<close> once from each of the two loops, the filter
  against \<open>files_processed\<close> is applied before either copy is processed, and the loop
  that adds the files does not test again.  For the workspace that holds only \<open>main.py\<close>
  and no explicit files the code produces two content segments for \<open>main.py\<close>.
\<close>

theorem duplicate_priority_source_file:
  "context_segments host_ok ascii_lower dup_world (lit ''/r'') None =
     Inr [Header, FileSection (lit ''main.py'') (lit ''x''), FileSection (lit ''main.py'') (lit ''x''),
          StructureListing [lit ''main.py'']]
   \<and> labels [Header, FileSection (lit ''main.py'') (lit ''x''),
              FileSection (lit ''main.py'') (lit ''x''), StructureListing [lit ''main.py'']]
       = [lit ''main.py'', lit ''main.py'']
   \<and> \<not> distinct [lit ''main.py'', lit ''main.py'']"
  by code_simp

subsection \<open>The properties on the demo workspace\<close>


theorem excerpt_caps_witness:
  "explicit_stage host_ok ws_world (lit ''/ws'') (Some (ctx_of [lit ''src/app.py'']))
     = Inr ([FileSection (lit ''src/app.py'') (lit ''print(1)'')], {lit ''src/app.py''})
   \<and> excerpt_length (FileSection (lit ''src/app.py'') (lit ''print(1)'')) \<le> 5000
   \<and> readme_stage host_ok ws_world (lit ''/ws'') {lit ''src/app.py''}
     = Inr ([FileSection (lit ''README.md'') (lit ''Demo'')], {lit ''README.md'', lit ''src/app.py''})
   \<and> excerpt_length (FileSection (lit ''README.md'') (lit ''Demo'')) \<le> 3000
   \<and> fst (projr (additional_stage host_ok ascii_lower ws_world (lit ''/ws'')
                   {lit ''README.md'', lit ''src/app.py''}))
     = [FileSection (lit ''util.py'') (lit ''pass'')]
   \<and> excerpt_length (FileSection (lit ''util.py'') (lit ''pass'')) \<le> 2500
   \<and> context_segments host_ok ascii_lower ws_world (lit ''/ws'') (Some (ctx_of [lit ''src/app.py''])) =
        Inr [Header, FileSection (lit ''src/app.py'') (lit ''print(1)''),
             FileSection (lit ''README.md'') (lit ''Demo''),
             FileSection (lit ''util.py'') (lit ''pass''),
             StructureListing [lit ''README.md'', lit ''bad.txt'', lit ''empty.txt'',
               lit ''locked.txt'', lit ''util.py'', lit ''src/app.py'']]"
proof -
  have a: "explicit_stage host_ok ws_world (lit ''/ws'') (Some (ctx_of [lit ''src/app.py'']))
     = Inr ([FileSection (lit ''src/app.py'') (lit ''print(1)'')], {lit ''src/app.py''})"
    by code_simp
  have b: "readme_stage host_ok ws_world (lit ''/ws'') {lit ''src/app.py''}
     = Inr ([FileSection (lit ''README.md'') (lit ''Demo'')], {lit ''README.md'', lit ''src/app.py''})"
    by code_simp
  have d: "context_segments host_ok ascii_lower ws_world (lit ''/ws'') (Some (ctx_of [lit ''src/app.py''])) =
        Inr [Header, FileSection (lit ''src/app.py'') (lit ''print(1)''),
             FileSection (lit ''README.md'') (lit ''Demo''),
             FileSection (lit ''util.py'') (lit ''pass''),
             StructureListing [lit ''README.md'', lit ''bad.txt'', lit ''empty.txt'',
               lit ''locked.txt'', lit ''util.py'', lit ''src/app.py'']]" by code_simp
  have c: "fst (projr (additional_stage host_ok ascii_lower ws_world (lit ''/ws'')
                   {lit ''README.md'', lit ''src/app.py''}))
     = [FileSection (lit ''util.py'') (lit ''pass'')]" by code_simp
  note t = excerpt_caps[of host_ok ws_world "lit ''/ws''" "Some (ctx_of [lit ''src/app.py''])"
      "[FileSection (lit ''src/app.py'') (lit ''print(1)'')]" "{lit ''src/app.py''}"
      "{lit ''src/app.py''}" "[FileSection (lit ''README.md'') (lit ''Demo'')]"
      "{lit ''README.md'', lit ''src/app.py''}"]
  from t a have e: "excerpt_length (FileSection (lit ''src/app.py'') (lit ''print(1)'')) \<le> 5000"
    by simp
  from t b have f: "excerpt_length (FileSection (lit ''README.md'') (lit ''Demo'')) \<le> 3000"
    by simp
  have g: "excerpt_length (FileSection (lit ''util.py'') (lit ''pass'')) \<le> 2500"
    by (simp add: lit_def)
  from a b c d e f g show ?thesis by blast
qed

section \<open>Properties of TreeIndexer\<close>

lemma distinct_dict_set: "distinct (keys s) \<Longrightarrow> distinct (keys (dict_set s k v))"
  by (cases "k \<in> set (keys s)") (simp_all add: keys_dict_set_new keys_dict_set_old)

lemma keys_fold_add_file:
  "set (keys (fold (add_file rel) names s))
     = set (keys s) \<union> (\<lambda>f. replace_backslash (path_join rel f)) ` set names"
  by (induction names arbitrary: s) (auto simp: keys_add_file_set)

lemma walk_preserves:
  assumes step: "\<And>rel f s. P s \<Longrightarrow> P (add_file rel f s)"
  shows "P s \<Longrightarrow> P (walk rel t s)"
proof (induction rel t s rule: walk.induct)
  case (1 rel_path r bs s)
  then show ?case by simp
next
  case (2 rel_path es s)
  have files: "P (fold (add_file rel_path) names s')" if "P s'" for names s'
    using that by (induction names arbitrary: s') (auto intro: step)
  have dirs: "P (fold (\<lambda>e s'. walk (child_rel rel_path (fst e)) (snd e) s') ds s')"
    if "P s'" "set ds \<subseteq> set (remove_dir (lit ''.git'') (filter (\<lambda>e. is_dir (snd e)) es))"
    for ds s'
    using that
  proof (induction ds arbitrary: s')
    case Nil
    then show ?case by simp
  next
    case (Cons e ds)
    then have "P (walk (child_rel rel_path (fst e)) (snd e) s')"
      using "2.IH"[of e s'] by simp
    with Cons show ?case by simp
  qed
  from files[OF "2.prems"] dirs show ?case by simp
qed

lemma walk_distinct: "distinct (keys s) \<Longrightarrow> distinct (keys (walk rel t s))"
  by (rule walk_preserves[where P = "\<lambda>s. distinct (keys s)"])
     (simp_all add: add_file_def Let_def distinct_dict_set)

lemma replace_backslash_clean: "backslash \<notin> set (replace_backslash s)"
  by (auto simp: replace_backslash_def slash_def backslash_def)

lemma walk_no_backslash:
  "\<forall>k \<in> set (keys s). backslash \<notin> set k \<Longrightarrow> \<forall>k \<in> set (keys (walk rel t s)). backslash \<notin> set k"
  by (rule walk_preserves[where P = "\<lambda>s. \<forall>k \<in> set (keys s). backslash \<notin> set k"])
     (simp_all add: keys_add_file_set replace_backslash_clean)

lemma join_with_snoc:
  "join_with sep (xs @ [x]) = (if xs = [] then x else join_with sep xs @ sep @ x)"
  by (induction sep xs rule: join_with.induct) auto

lemma join_with_empty_iff:
  "\<forall>c \<in> set pre. valid_name c \<Longrightarrow> join_with [slash] pre = [] \<longleftrightarrow> pre = []"
  by (induction "[slash]" pre rule: join_with.induct) (auto simp: valid_name_def)

lemma valid_name_last: "valid_name x \<Longrightarrow> last x \<noteq> slash"
  by (metis last_in_set valid_name_def)

lemma join_with_last:
  "\<forall>c \<in> set pre. valid_name c \<Longrightarrow> pre \<noteq> [] \<Longrightarrow> last (join_with [slash] pre) \<noteq> slash"
proof (induction "[slash]" pre rule: join_with.induct)
  case 1
  then show ?case by simp
next
  case 2
  then show ?case by (simp add: valid_name_last)
next
  case (3 x y ys)
  then have "join_with [slash] (y # ys) \<noteq> []"
    using join_with_empty_iff[of "y # ys"] by simp
  with 3 show ?case by simp
qed

lemma child_rel_join:
  "\<forall>c \<in> set pre. valid_name c \<Longrightarrow>
   child_rel (join_with [slash] pre) d = join_with [slash] (pre @ [d])"
  by (simp add: child_rel_def join_with_snoc join_with_empty_iff)

lemma path_join_join:
  assumes "\<forall>c \<in> set pre. valid_name c" and "valid_name f"
  shows "path_join (join_with [slash] pre) f = join_with [slash] (pre @ [f])"
proof (cases "pre = []")
  case True
  with assms(2) show ?thesis
    by (cases f) (auto simp: path_join_def startswith_def valid_name_def)
next
  case False
  then have ne: "join_with [slash] pre \<noteq> []" using assms(1) join_with_empty_iff by blast
  have "last (join_with [slash] pre) \<noteq> slash" using join_with_last[OF assms(1) False] .
  with ne have "\<not> endswith (join_with [slash] pre) [slash]"
    by (auto simp: endswith_def suffix_def)
  moreover have "\<not> startswith f [slash]"
    using assms(2) by (cases f) (auto simp: startswith_def valid_name_def)
  ultimately show ?thesis using False ne by (simp add: path_join_def join_with_snoc)
qed

lemma fold_new_key:
  "k \<in> set (keys (fold F ds s)) \<Longrightarrow>
   k \<in> set (keys s) \<or> (\<exists>e \<in> set ds. \<exists>s'. k \<in> set (keys (F e s')) \<and> k \<notin> set (keys s'))"
proof (induction ds arbitrary: s)
  case Nil
  then show ?case by simp
next
  case (Cons e ds)
  from Cons.IH[of "F e s"] Cons.prems
  have "k \<in> set (keys (F e s))
        \<or> (\<exists>e' \<in> set ds. \<exists>s'. k \<in> set (keys (F e' s')) \<and> k \<notin> set (keys s'))"
    by simp
  then show ?case by (cases "k \<in> set (keys s)") auto
qed

lemma set_remove_dir: "set (remove_dir k es) \<subseteq> set es"
  by (induction es) auto

lemma remove_dir_drops:
  "distinct (map fst es) \<Longrightarrow> e \<in> set (remove_dir k es) \<Longrightarrow> fst e \<noteq> k"
proof (induction es)
  case Nil
  then show ?case by simp
next
  case (Cons x es)
  then show ?case by (cases "fst x = k") (auto simp: rev_image_eqI)
qed

lemma walk_keys_paths:
  assumes "wf_node t" and "\<forall>c \<in> set pre. valid_name c"
    and "k \<in> set (keys (walk (join_with [slash] pre) t s))"
  shows "k \<in> set (keys s)
       \<or> (\<exists>comps. comps \<noteq> [] \<and> k = replace_backslash (join_with [slash] (pre @ comps))
             \<and> is_file (lookup t comps) \<and> lit ''.git'' \<notin> set (butlast comps))"
  using assms
proof (induction "join_with [slash] pre" t s arbitrary: pre k rule: walk.induct)
  case (1 r bs s)
  then show ?case by simp
next
  case (2 es s)
  let ?rel = "join_with [slash] pre"
  let ?dirs = "remove_dir (lit ''.git'') (filter (\<lambda>e. is_dir (snd e)) es)"
  let ?names = "map fst (filter (\<lambda>e. \<not> is_dir (snd e)) es)"
  let ?s1 = "fold (add_file ?rel) ?names s"
  have dist: "distinct (map fst es)" and wfes: "\<forall>e \<in> set es. valid_name (fst e) \<and> wf_node (snd e)"
    using "2.prems"(1) by simp_all
  have mo: "map_of es (fst e) = Some (snd e)" if "e \<in> set es" for e
    using map_of_is_SomeI[OF dist, of "fst e" "snd e"] that by simp
  from "2.prems"(3)
  have "k \<in> set (keys (fold (\<lambda>e s'. walk (child_rel ?rel (fst e)) (snd e) s') ?dirs ?s1))"
    by simp
  from fold_new_key[OF this]
  consider (old) "k \<in> set (keys ?s1)"
    | (new) e s' where "e \<in> set ?dirs"
        "k \<in> set (keys (walk (child_rel ?rel (fst e)) (snd e) s'))" "k \<notin> set (keys s')"
    by blast
  then show ?case
  proof cases
    case old
    then consider "k \<in> set (keys s)"
      | f where "f \<in> set ?names" "k = replace_backslash (path_join ?rel f)"
      by (auto simp: keys_fold_add_file)
    then show ?thesis
    proof cases
      case 1
      then show ?thesis by simp
    next
      case 2
      then obtain e where e: "e \<in> set es" "\<not> is_dir (snd e)" "f = fst e" by auto
      then have vf: "valid_name f" using wfes by simp
      have "is_file (lookup (Dir es) [f])"
        using mo[OF e(1)] e(2,3) by (cases "snd e") (simp_all add: is_file_def)
      moreover have "k = replace_backslash (join_with [slash] (pre @ [f]))"
        using 2(2) path_join_join[OF "2.prems"(2) vf] by simp
      ultimately show ?thesis by (intro disjI2 exI[of _ "[f]"]) simp
    qed
  next
    case new
    have ein: "e \<in> set es" using new(1) set_remove_dir by fastforce
    have notgit: "fst e \<noteq> lit ''.git''"
      using remove_dir_drops[OF _ new(1)] dist by (simp add: distinct_map_filter)
    have ve: "valid_name (fst e)" and we: "wf_node (snd e)" using wfes ein by simp_all
    have pre': "\<forall>c \<in> set (pre @ [fst e]). valid_name c" using "2.prems"(2) ve by simp
    have cr: "child_rel ?rel (fst e) = join_with [slash] (pre @ [fst e])"
      using child_rel_join[OF "2.prems"(2)] .
    from new(2) have "k \<in> set (keys (walk (join_with [slash] (pre @ [fst e])) (snd e) s'))"
      by (simp add: cr)
    from "2.hyps"[OF new(1) cr we pre' this] new(3)
    obtain comps where c: "comps \<noteq> []"
      "k = replace_backslash (join_with [slash] ((pre @ [fst e]) @ comps))"
      "is_file (lookup (snd e) comps)" "lit ''.git'' \<notin> set (butlast comps)"
      by blast
    have "is_file (lookup (Dir es) (fst e # comps))" using c(3) mo[OF ein] by simp
    moreover have "lit ''.git'' \<notin> set (butlast (fst e # comps))" using c(1,4) notgit by auto
    moreover have "k = replace_backslash (join_with [slash] (pre @ fst e # comps))"
      using c(2) by simp
    ultimately show ?thesis by (intro disjI2 exI[of _ "fst e # comps"]) simp
  qed
qed

text \<open>
  C3, as stated, fails in its first part: only directories named \<open>.git\<close> are skipped.  A
  regular file of that name is in \<open>files\<close>, not in \<open>dirs\<close>, and is indexed.
\<close>

theorem index_git_file_counterexample:
  "keys (get_repo_structure gitfile_world (lit ''/r'')) = [lit ''.git'', lit ''sub/a.py'']
   \<and> lit ''.git'' \<in> set (keys (get_repo_structure gitfile_world (lit ''/r'')))
   \<and> lit ''.git'' \<in> set (split_path (lit ''.git''))"
  by code_simp

text \<open>
  C3, amended.  A root that is not a directory gives the empty index.  The keys are
  distinct and hold no backslash.  For a well-formed tree every key is the names from the
  root down to a regular file, joined by slashes (with backslashes replaced), and none of
  the directories on the way is named \<open>.git\<close>.
\<close>

theorem index_keys:
  "(\<not> isdir w d \<longrightarrow> get_repo_structure w d = [])
   \<and> distinct (keys (get_repo_structure w d))
   \<and> (\<forall>k \<in> set (keys (get_repo_structure w d)). backslash \<notin> set k)
   \<and> (\<forall>t. resolve w d = Some t \<and> wf_node t \<longrightarrow>
        (\<forall>k \<in> set (keys (get_repo_structure w d)).
           \<exists>comps. comps \<noteq> [] \<and> k = replace_backslash (join_with [slash] comps)
             \<and> is_file (lookup t comps) \<and> lit ''.git'' \<notin> set (butlast comps)))"
proof (intro conjI allI impI ballI)
  assume "\<not> isdir w d"
  then show "get_repo_structure w d = []" by (simp add: get_repo_structure_def)
next
  show "distinct (keys (get_repo_structure w d))"
    using walk_distinct[of "[]"] by (simp add: get_repo_structure_def keys_def split: option.splits)
next
  fix k
  assume "k \<in> set (keys (get_repo_structure w d))"
  then show "backslash \<notin> set k"
    using walk_no_backslash[of "[]"]
    by (auto simp: get_repo_structure_def keys_def split: option.splits if_splits)
next
  fix t k
  assume t: "resolve w d = Some t \<and> wf_node t"
    and k: "k \<in> set (keys (get_repo_structure w d))"
  have "keys [] = []" by (simp add: keys_def)
  with k t have "k \<in> set (keys (walk (join_with [slash] []) t []))"
    by (auto simp: get_repo_structure_def split: if_splits)
  from walk_keys_paths[OF _ _ this] t
  show "\<exists>comps. comps \<noteq> [] \<and> k = replace_backslash (join_with [slash] comps)
             \<and> is_file (lookup t comps) \<and> lit ''.git'' \<notin> set (butlast comps)"
    by (auto simp: keys_def)
qed

theorem index_keys_witness:
  "\<not> isdir gitfile_world (lit ''/nothing'')
   \<and> get_repo_structure gitfile_world (lit ''/nothing'') = []
   \<and> resolve gitfile_world (lit ''/r'') = Some gitfile_tree \<and> wf_node gitfile_tree
   \<and> keys (get_repo_structure gitfile_world (lit ''/r'')) = [lit ''.git'', lit ''sub/a.py'']
   \<and> distinct (keys (get_repo_structure gitfile_world (lit ''/r'')))
   \<and> backslash \<notin> set (lit ''.git'') \<and> backslash \<notin> set (lit ''sub/a.py'')
   \<and> (\<exists>comps. comps \<noteq> [] \<and> lit ''.git'' = replace_backslash (join_with [slash] comps)
          \<and> is_file (lookup gitfile_tree comps) \<and> lit ''.git'' \<notin> set (butlast comps))
   \<and> (\<exists>comps. comps \<noteq> [] \<and> lit ''sub/a.py'' = replace_backslash (join_with [slash] comps)
          \<and> is_file (lookup gitfile_tree comps) \<and> lit ''.git'' \<notin> set (butlast comps))"
proof -
  have a: "\<not> isdir gitfile_world (lit ''/nothing'')" by code_simp
  have b: "resolve gitfile_world (lit ''/r'') = Some gitfile_tree" by code_simp
  have c: "wf_node gitfile_tree" by code_simp
  have d: "keys (get_repo_structure gitfile_world (lit ''/r'')) = [lit ''.git'', lit ''sub/a.py'']"
    by code_simp
  from index_keys[of gitfile_world "lit ''/nothing''"] a
  have e: "get_repo_structure gitfile_world (lit ''/nothing'') = []" by blast
  from index_keys[of gitfile_world "lit ''/r''"] b c
  have f: "distinct (keys (get_repo_structure gitfile_world (lit ''/r'')))
     \<and> (\<forall>k \<in> set (keys (get_repo_structure gitfile_world (lit ''/r''))). backslash \<notin> set k)
     \<and> (\<forall>k \<in> set (keys (get_repo_structure gitfile_world (lit ''/r''))).
           \<exists>comps. comps \<noteq> [] \<and> k = replace_backslash (join_with [slash] comps)
             \<and> is_file (lookup gitfile_tree comps) \<and> lit ''.git'' \<notin> set (butlast comps))"
    by blast
  from f have g: "distinct (keys (get_repo_structure gitfile_world (lit ''/r'')))" by blast
  from f d have h: "backslash \<notin> set (lit ''.git'') \<and> backslash \<notin> set (lit ''sub/a.py'')"
    by simp
  from f d have i: "\<exists>comps. comps \<noteq> [] \<and> lit ''.git'' = replace_backslash (join_with [slash] comps)
          \<and> is_file (lookup gitfile_tree comps) \<and> lit ''.git'' \<notin> set (butlast comps)"
    by simp
  from f d have j: "\<exists>comps. comps \<noteq> [] \<and> lit ''sub/a.py'' = replace_backslash (join_with [slash] comps)
          \<and> is_file (lookup gitfile_tree comps) \<and> lit ''.git'' \<notin> set (butlast comps)"
    by simp
  from a b c d e g h i j show ?thesis by blast
qed

end
